theory Spec2Isabelle
  imports Complex_Main "HOL-Library.Option_ord" "HOL-Library.Sublist" "HOL-Library.Multiset"
begin

section \<open>Data model\<close>

text \<open>
  The notebook works on one pandas DataFrame. A frame is modelled by its ordered column
  names, the declared type of each column, and its rows in order, each row carrying its
  index label and a function from column name to cell. Only the columns listed in
  \<open>columns\<close> are visible; \<open>to_csv\<close> reads exactly those.
\<close>

datatype dtype = Float64 | Int64 | Object

datatype cell = FloatV real | IntV int | StrV string | NaN

datatype error = KeyError | TypeError | ValueError | AssertionError | OverflowError

type_synonym row = "string \<Rightarrow> cell"

record frame =
  columns :: "string list"
  dtypes :: "string \<Rightarrow> dtype"
  rows :: "(nat \<times> row) list"

text \<open>The input file: a header with declared types and the data rows in file order.\<close>

record table =
  t_columns :: "string list"
  t_dtypes :: "string \<Rightarrow> dtype"
  t_rows :: "row list"

type_synonym csv = "string list \<times> cell list list"

definition index :: "frame \<Rightarrow> nat list" where
  "index df = map fst (rows df)"

definition len :: "frame \<Rightarrow> nat" where
  "len df = length (rows df)"

text \<open>\<open>pd.read_csv\<close>: the rows get the labels 0, 1, 2, ... (a RangeIndex).\<close>

definition read_csv :: "table \<Rightarrow> frame" where
  "read_csv t =
     \<lparr>columns = t_columns t, dtypes = t_dtypes t,
      rows = zip [0..<length (t_rows t)] (t_rows t)\<rparr>"

text \<open>\<open>df.to_csv(path, index=False)\<close>: the header and the cells of every row, no labels.\<close>

definition to_csv :: "frame \<Rightarrow> csv" where
  "to_csv df = (columns df, map (\<lambda>(l, r). map r (columns df)) (rows df))"

text \<open>\<open>df.drop(names, axis=1)\<close>: KeyError when a listed column is absent.\<close>

definition drop_columns :: "string list \<Rightarrow> frame \<Rightarrow> error + frame" where
  "drop_columns names df =
     (if \<exists>n \<in> set names. n \<notin> set (columns df) then Inl KeyError
      else Inr (df\<lparr>columns := filter (\<lambda>c. c \<notin> set names) (columns df)\<rparr>))"

text \<open>\<open>df[names]\<close>: KeyError when a listed column is absent.\<close>

definition select_columns :: "string list \<Rightarrow> frame \<Rightarrow> error + frame" where
  "select_columns names df =
     (if \<exists>n \<in> set names. n \<notin> set (columns df) then Inl KeyError
      else Inr (df\<lparr>columns := names\<rparr>))"

text \<open>
  \<open>df[name] = values\<close>: an existing column keeps its place, a new one is appended.
  The values are given per row, from the row's label and position.
\<close>

definition add_column :: "string \<Rightarrow> dtype \<Rightarrow> (nat \<Rightarrow> nat \<Rightarrow> cell) \<Rightarrow> frame \<Rightarrow> frame" where
  "add_column name ty val df =
     \<lparr>columns = (if name \<in> set (columns df) then columns df else columns df @ [name]),
      dtypes = (dtypes df)(name := ty),
      rows = map (\<lambda>(p, (l, r)). (l, r(name := val l p))) (zip [0..<length (rows df)] (rows df))\<rparr>"

text \<open>\<open>df.loc[labels]\<close>: the rows with these labels, in the order asked for.\<close>

fun loc_rows :: "(nat \<times> row) list \<Rightarrow> nat list \<Rightarrow> (nat \<times> row) list option" where
  "loc_rows rs [] = Some []"
| "loc_rows rs (l # ls) =
     (case map_of rs l of
        None \<Rightarrow> None
      | Some r \<Rightarrow> map_option ((#) (l, r)) (loc_rows rs ls))"

definition loc :: "frame \<Rightarrow> nat list \<Rightarrow> error + frame" where
  "loc df labels =
     (case loc_rows (rows df) labels of
        None \<Rightarrow> Inl KeyError
      | Some rs \<Rightarrow> Inr (df\<lparr>rows := rs\<rparr>))"

text \<open>\<open>df.drop(index=labels)\<close>: KeyError when a label is absent; the other rows stay in order.\<close>

definition drop_index :: "nat list \<Rightarrow> frame \<Rightarrow> error + frame" where
  "drop_index labels df =
     (if \<exists>l \<in> set labels. l \<notin> set (index df) then Inl KeyError
      else Inr (df\<lparr>rows := filter (\<lambda>(l, r). l \<notin> set labels) (rows df)\<rparr>))"

text \<open>The numeric value of a cell; a missing value has none.\<close>

fun num_of :: "cell \<Rightarrow> real option" where
  "num_of (FloatV x) = Some x"
| "num_of (IntV i) = Some (of_int i)"
| "num_of (StrV s) = None"
| "num_of NaN = None"

text \<open>
  \<open>df.nlargest(n, col)\<close> with the default \<open>keep='first'\<close>: the first \<open>n\<close> rows of the
  frame sorted by \<open>col\<close>, largest first, rows of equal value in their original order and
  missing values last. KeyError when the column is absent, TypeError on an object column.
\<close>

definition sort_desc :: "string \<Rightarrow> (nat \<times> row) list \<Rightarrow> (nat \<times> row) list" where
  "sort_desc col rs = rev (sort_key (\<lambda>(l, r). num_of (r col)) (rev rs))"

definition nlargest :: "nat \<Rightarrow> string \<Rightarrow> frame \<Rightarrow> error + frame" where
  "nlargest n col df =
     (if col \<notin> set (columns df) then Inl KeyError
      else if dtypes df col = Object then Inl TypeError
      else Inr (df\<lparr>rows := take n (sort_desc col (rows df))\<rparr>))"

text \<open>\<open>df[col].min()\<close> and \<open>df[col].max()\<close> skip missing values; with none left the result is missing.\<close>

definition col_values :: "string \<Rightarrow> frame \<Rightarrow> real list" where
  "col_values col df = concat (map (\<lambda>(l, r). case num_of (r col) of None \<Rightarrow> [] | Some x \<Rightarrow> [x]) (rows df))"

definition col_min :: "string \<Rightarrow> frame \<Rightarrow> real option" where
  "col_min col df = (case col_values col df of [] \<Rightarrow> None | x # xs \<Rightarrow> Some (fold min xs x))"

definition col_max :: "string \<Rightarrow> frame \<Rightarrow> real option" where
  "col_max col df = (case col_values col df of [] \<Rightarrow> None | x # xs \<Rightarrow> Some (fold max xs x))"

section \<open>The seeded generator\<close>

text \<open>
  \<open>np.random.seed(42)\<close> fixes the sequence of draws of the global generator. The model
  takes that sequence as a list of naturals, read from the front (an exhausted list
  yields 0), and every library call maps the draws it consumes to its documented range
  of results.
\<close>

type_synonym rng = "nat list"

fun draw :: "rng \<Rightarrow> nat \<times> rng" where
  "draw [] = (0, [])"
| "draw (r # rs) = (r, rs)"

text \<open>
  \<open>np.random.choice(a, size=k, replace=False)\<close>: ValueError when \<open>k\<close> exceeds the
  population, otherwise \<open>k\<close> entries at distinct positions of \<open>a\<close>, in the order drawn.
\<close>

fun pick :: "rng \<Rightarrow> 'a list \<Rightarrow> nat \<Rightarrow> 'a list \<times> rng" where
  "pick g pool 0 = ([], g)"
| "pick g [] (Suc k) = ([], g)"
| "pick g (p # ps) (Suc k) =
     (let (r, g1) = draw g;
          i = r mod length (p # ps);
          (xs, g2) = pick g1 (take i (p # ps) @ drop (Suc i) (p # ps)) k
      in ((p # ps) ! i # xs, g2))"

definition rand_choice :: "rng \<Rightarrow> 'a list \<Rightarrow> nat \<Rightarrow> error + 'a list \<times> rng" where
  "rand_choice g a k = (if length a < k then Inl ValueError else Inr (pick g a k))"

text \<open>
  \<open>np.random.binomial(n, p)\<close> with \<open>p = pn / pd\<close>: the number of successes in \<open>n\<close>
  trials of success probability \<open>p\<close>. A trial takes one draw \<open>r\<close>, read as the
  fraction \<open>(r mod pd) / pd\<close> of \<open>[0, 1)\<close>, and succeeds when that fraction is at least
  \<open>1 - p\<close>. The library computes a count of the same law from its generator by another
  method; the model keeps the definition of the distribution, so that the count has the
  binomial law when the draws are uniform over the residues.
\<close>

fun rand_binomial :: "rng \<Rightarrow> nat \<Rightarrow> nat \<times> nat \<Rightarrow> nat \<times> rng" where
  "rand_binomial g 0 p = (0, g)"
| "rand_binomial g (Suc n) p =
     (let (r, g1) = draw g;
          (b, g2) = rand_binomial g1 n p
      in ((if snd p - fst p \<le> r mod snd p then 1 else 0) + b, g2))"

text \<open>
  \<open>np.random.uniform(low, high, n)\<close> first computes \<open>high - low\<close> in float64 and raises
  OverflowError when that is not finite: a bound is missing (nan), or the difference
  rounds to infinity, which for finite float64 bounds is the case from
  \<open>2^1024 - 2^970\<close> on. Otherwise it gives \<open>n\<close> values \<open>low + (high - low) * u\<close> with
  \<open>u\<close> a multiple of \<open>2^-53\<close> in \<open>[0, 1)\<close>. Cells hold finite values only.
\<close>

definition range_overflows :: "real option \<Rightarrow> real option \<Rightarrow> bool" where
  "range_overflows lo hi =
     (case (lo, hi) of
        (Some a, Some b) \<Rightarrow> 2 ^ 1024 - 2 ^ 970 \<le> \<bar>b - a\<bar>
      | _ \<Rightarrow> True)"

fun uniform_draws :: "rng \<Rightarrow> real \<Rightarrow> real \<Rightarrow> nat \<Rightarrow> cell list \<times> rng" where
  "uniform_draws g a b 0 = ([], g)"
| "uniform_draws g a b (Suc n) =
     (let (r, g1) = draw g;
          v = FloatV (a + (b - a) * (real_of_int (int r mod 2 ^ 53) / 2 ^ 53));
          (vs, g2) = uniform_draws g1 a b n
      in (v # vs, g2))"

definition rand_uniform :: "rng \<Rightarrow> real option \<Rightarrow> real option \<Rightarrow> nat \<Rightarrow> error + cell list \<times> rng" where
  "rand_uniform g lo hi n =
     (case (lo, hi) of
        (Some a, Some b) \<Rightarrow>
          if range_overflows lo hi then Inl OverflowError else Inr (uniform_draws g a b n)
      | _ \<Rightarrow> Inl OverflowError)"

text \<open>\<open>df.sample(k)\<close>: \<open>k\<close> distinct rows, chosen by position with the global generator.\<close>

definition sample :: "rng \<Rightarrow> frame \<Rightarrow> nat \<Rightarrow> error + frame \<times> rng" where
  "sample g df k =
     (case rand_choice g (rows df) k of
        Inl e \<Rightarrow> Inl e
      | Inr (rs, g1) \<Rightarrow> Inr (df\<lparr>rows := rs\<rparr>, g1))"

section \<open>The notebook\<close>

type_synonym files = "string \<rightharpoonup> csv"

definition categorical_features :: "string list" where
  "categorical_features =
     [''bond_type'', ''dimensions'', ''linkerA'', ''linkerB'', ''net'',
      ''chemical_formula'', ''vertices'', ''edges'', ''genus'']"

definition target_variables :: "string list" where
  "target_variables =
     [''heatDesorptionHigh'', ''heatDesorptionHigh_Error'', ''highUptake_molec'',
      ''highUptakeError_molec'', ''highUptakeError_mol'', ''heatDesorptionLow'',
      ''heatDesorptionLow_error'', ''lowUptake_molec'', ''lowUptakeError_molec'',
      ''lowUptake_mol'', ''lowUptakeError_mol'', ''surface_area'', ''del_capacity'']"

text \<open>The three \<open>df.drop(..., axis=1, inplace=True)\<close> cells.\<close>

definition clean :: "frame \<Rightarrow> error + frame" where
  "clean df =
     (case drop_columns [''Unnamed: 0''] df of
        Inl e \<Rightarrow> Inl e
      | Inr df1 \<Rightarrow>
          (case drop_columns categorical_features df1 of
             Inl e \<Rightarrow> Inl e
           | Inr df2 \<Rightarrow> drop_columns target_variables df2))"

subsection \<open>Splitting\<close>

text \<open>\<open>df.index.difference(labels)\<close>: the labels of the index not listed, ascending.\<close>

definition index_difference :: "nat list \<Rightarrow> nat list \<Rightarrow> nat list" where
  "index_difference idx labels = sort (remdups (filter (\<lambda>i. i \<notin> set labels) idx))"

text \<open>
  \<open>best_row\<close>, \<open>great_rows\<close>, \<open>best_rows\<close>, \<open>additional_rows\<close> and
  \<open>combined_indices\<close> of the split cell.
\<close>

definition held_out_indices :: "rng \<Rightarrow> frame \<Rightarrow> error + nat list \<times> rng" where
  "held_out_indices g df =
     (case nlargest 1 ''highUptake_mol'' df of
        Inl e \<Rightarrow> Inl e
      | Inr best \<Rightarrow>
     (case nlargest 15 ''highUptake_mol'' df of
        Inl e \<Rightarrow> Inl e
      | Inr top15 \<Rightarrow>
     (case sample g (top15\<lparr>rows := drop 5 (rows top15)\<rparr>) 5 of
        Inl e \<Rightarrow> Inl e
      | Inr (great, g1) \<Rightarrow>
     (let best_row = index best;
          great_rows = index great;
          best_rows = best_row @ great_rows
      in case rand_choice g1 (index_difference (index df) best_rows) (100 - length best_rows) of
           Inl e \<Rightarrow> Inl e
         | Inr (additional_rows, g2) \<Rightarrow> Inr (best_rows @ additional_rows, g2)))))"

text \<open>
  The three files of the split cell, written one after the other: \<open>solution.csv\<close>,
  \<open>test.csv\<close>, \<open>sample_submission.csv\<close>. The files written so far are returned also
  when a later step raises; \<open>np.random.uniform\<close> is called between the second and the
  third write.
\<close>

definition split_outputs :: "files \<Rightarrow> rng \<Rightarrow> frame \<Rightarrow> frame \<Rightarrow> files \<times> (error + rng)" where
  "split_outputs fs g df df_test =
     (case select_columns [''id'', ''highUptake_mol''] df_test of
        Inl e \<Rightarrow> (fs, Inl e)
      | Inr sol \<Rightarrow>
     (let solution = add_column ''Usage'' Object (\<lambda>l p. StrV ''Public'') sol;
          fs1 = fs(''./data/solution.csv'' \<mapsto> to_csv solution)
      in case drop_columns [''highUptake_mol''] df_test of
           Inl e \<Rightarrow> (fs1, Inl e)
         | Inr test \<Rightarrow>
     (let fs2 = fs1(''./data/test.csv'' \<mapsto> to_csv test);
          minimum = col_min ''highUptake_mol'' df;
          maximum = col_max ''highUptake_mol'' df
      in case select_columns [''id''] df_test of
           Inl e \<Rightarrow> (fs2, Inl e)
         | Inr sub \<Rightarrow>
     (case rand_uniform g minimum maximum (len df_test) of
        Inl e \<Rightarrow> (fs2, Inl e)
      | Inr (vals, g1) \<Rightarrow>
     (let sample_submission = add_column ''highUptake_mol'' Float64 (\<lambda>l p. vals ! p) sub
      in (fs2(''./data/sample_submission.csv'' \<mapsto> to_csv sample_submission), Inr g1))))))"

definition column :: "string \<Rightarrow> frame \<Rightarrow> cell list" where
  "column c df = map (\<lambda>(l, r). r c) (rows df)"

text \<open>
  The split cell: the \<open>id\<close> column, the held-out rows, the three files, the removal of
  the held-out rows from \<open>df\<close>, and the four assertions. The result is the training
  frame, the held-out frame and the generator.
\<close>

definition splitter :: "files \<Rightarrow> rng \<Rightarrow> frame \<Rightarrow> files \<times> (error + frame \<times> frame \<times> rng)" where
  "splitter fs g df0 =
     (let df_len = len df0;
          df = add_column ''id'' Int64 (\<lambda>l p. IntV (int l)) df0
      in case held_out_indices g df of
           Inl e \<Rightarrow> (fs, Inl e)
         | Inr (combined_indices, g1) \<Rightarrow>
     (case loc df combined_indices of
        Inl e \<Rightarrow> (fs, Inl e)
      | Inr df_test \<Rightarrow>
     (case split_outputs fs g1 df df_test of
        (fs1, Inl e) \<Rightarrow> (fs1, Inl e)
      | (fs1, Inr g2) \<Rightarrow>
     (case drop_index combined_indices df of
        Inl e \<Rightarrow> (fs1, Inl e)
      | Inr df_train \<Rightarrow>
          if len df_train + len df_test \<noteq> df_len then (fs1, Inl AssertionError)
          else if \<not> distinct (column ''id'' df_train) then (fs1, Inl AssertionError)
          else if \<not> distinct (column ''id'' df_test) then (fs1, Inl AssertionError)
          else if \<exists>c \<in> set (column ''id'' df_train). c \<in> set (column ''id'' df_test)
            then (fs1, Inl AssertionError)
          else (fs1, Inr (df_train, df_test, g2))))))"

subsection \<open>Corrupting\<close>

text \<open>\<open>df.select_dtypes(exclude=[ty]).columns.tolist()\<close>.\<close>

definition select_dtypes_exclude :: "dtype \<Rightarrow> frame \<Rightarrow> string list" where
  "select_dtypes_exclude ty df = filter (\<lambda>c. dtypes df c \<noteq> ty) (columns df)"

text \<open>
  \<open>list(s)\<close> for a set \<open>s\<close> of strings: each element once, in the order of the
  interpreter's string hash \<open>h\<close>, which is chosen afresh for every interpreter process.
\<close>

definition set_to_list :: "(string \<Rightarrow> nat) \<Rightarrow> string list \<Rightarrow> string list" where
  "set_to_list h xs = sort_key h (remdups xs)"

definition float64_columns :: "(string \<Rightarrow> nat) \<Rightarrow> frame \<Rightarrow> string list" where
  "float64_columns h df =
     set_to_list h (filter (\<lambda>c. c \<notin> set (select_dtypes_exclude Float64 df)) (columns df))"

text \<open>\<open>df.loc[idx, cols] = np.nan\<close>.\<close>

definition set_nan :: "nat \<Rightarrow> string list \<Rightarrow> frame \<Rightarrow> frame" where
  "set_nan idx cols df =
     df\<lparr>rows := map (\<lambda>(l, r). if l = idx then (l, (\<lambda>c. if c \<in> set cols then NaN else r c)) else (l, r))
                    (rows df)\<rparr>"

text \<open>\<open>num_nans = np.random.binomial(len(df.columns), 0.1) + 1\<close>.\<close>

definition num_nans :: "rng \<Rightarrow> frame \<Rightarrow> nat \<times> rng" where
  "num_nans g df = (let (b, g1) = rand_binomial g (length (columns df)) (1, 10) in (b + 1, g1))"

text \<open>The loop over \<open>nan_indices\<close>.\<close>

fun corrupt_rows :: "string list \<Rightarrow> rng \<Rightarrow> frame \<Rightarrow> nat list \<Rightarrow> error + frame \<times> rng" where
  "corrupt_rows fcols g df [] = Inr (df, g)"
| "corrupt_rows fcols g df (idx # rest) =
     (let (k, g1) = num_nans g df
      in case rand_choice g1 fcols k of
           Inl e \<Rightarrow> Inl e
         | Inr (nan_columns, g2) \<Rightarrow> corrupt_rows fcols g2 (set_nan idx nan_columns df) rest)"

text \<open>
  The corruption cell. \<open>int(0.125 * len(df))\<close> is \<open>len(df) div 8\<close>: the product with
  a power of two is exact and \<open>int\<close> truncates.
\<close>

definition corruptor :: "(string \<Rightarrow> nat) \<Rightarrow> rng \<Rightarrow> frame \<Rightarrow> error + frame \<times> rng" where
  "corruptor h g df =
     (case rand_choice g (index df) (len df div 8) of
        Inl e \<Rightarrow> Inl e
      | Inr (nan_indices, g1) \<Rightarrow> corrupt_rows (float64_columns h df) g1 df nan_indices)"

subsection \<open>The whole run\<close>

text \<open>
  The cells in order. The result is the files written during the run and the error that
  stopped it, if any.
\<close>

definition pipeline :: "(string \<Rightarrow> nat) \<Rightarrow> rng \<Rightarrow> table \<Rightarrow> files \<times> error option" where
  "pipeline h seed t =
     (case clean (read_csv t) of
        Inl e \<Rightarrow> (Map.empty, Some e)
      | Inr df \<Rightarrow>
     (case splitter Map.empty seed df of
        (fs, Inl e) \<Rightarrow> (fs, Some e)
      | (fs, Inr (df_train, df_test, g)) \<Rightarrow>
     (case corruptor h g df_train of
        Inl e \<Rightarrow> (fs, Some e)
      | Inr (df_nan, g1) \<Rightarrow> (fs(''./data/train.csv'' \<mapsto> to_csv df_nan), None))))"

section \<open>Observations on the outputs\<close>

text \<open>The cells of a named column of a written file, read through the header.\<close>

fun position_of :: "'a \<Rightarrow> 'a list \<Rightarrow> nat" where
  "position_of x [] = 0"
| "position_of x (y # ys) = (if x = y then 0 else Suc (position_of x ys))"

definition csv_column :: "string \<Rightarrow> csv \<Rightarrow> cell list" where
  "csv_column c f = map (\<lambda>r. r ! position_of c (fst f)) (snd f)"

text \<open>
  The values the split cell computes when none of its steps fails, written out: the
  frame with its \<open>id\<close> column, \<open>combined_indices\<close>, \<open>df_test\<close> and the \<open>df\<close>
  left after the held-out rows are dropped.
\<close>

definition with_id :: "frame \<Rightarrow> frame" where
  "with_id df0 = add_column ''id'' Int64 (\<lambda>l p. IntV (int l)) df0"

definition held_out_of :: "rng \<Rightarrow> frame \<Rightarrow> nat list" where
  "held_out_of g df =
     (let s = sort_desc ''highUptake_mol'' (rows df);
          great = fst (pick g (drop 5 (take 15 s)) 5);
          best_rows = fst (hd s) # map fst great
      in best_rows @ fst (pick (drop 5 g) (index_difference (index df) best_rows) 94))"

definition test_frame :: "frame \<Rightarrow> nat list \<Rightarrow> frame" where
  "test_frame df combined = df\<lparr>rows := map (\<lambda>l. (l, the (map_of (rows df) l))) combined\<rparr>"

definition train_frame :: "frame \<Rightarrow> nat list \<Rightarrow> frame" where
  "train_frame df combined = df\<lparr>rows := filter (\<lambda>(l, r). l \<notin> set combined) (rows df)\<rparr>"

text \<open>The label and the cells of the row at a position of a frame.\<close>

definition label_at :: "frame \<Rightarrow> nat \<Rightarrow> nat" where
  "label_at df p = fst (rows df ! p)"

definition cell_at :: "frame \<Rightarrow> nat \<Rightarrow> string \<Rightarrow> cell" where
  "cell_at df p c = snd (rows df ! p) c"

text \<open>Every row carries its own label in the \<open>id\<close> column.\<close>

definition id_ok :: "(nat \<times> row) list \<Rightarrow> bool" where
  "id_ok rs = (\<forall>(l, r) \<in> set rs. r ''id'' = IntV (int l))"

text \<open>
  A small input family for concrete runs: the columns the notebook drops, a float
  feature \<open>a\<close> holding \<open>v\<close> in every row, an integer feature \<open>n\<close> and the float
  target, which decreases from row to row.
\<close>

definition example_row :: "cell \<Rightarrow> nat \<Rightarrow> row" where
  "example_row v i =
     (\<lambda>c. if c = ''highUptake_mol'' then FloatV (- real i)
          else if c = ''a'' then v else IntV 0)"

definition example_dtypes :: "string \<Rightarrow> dtype" where
  "example_dtypes c = (if c = ''a'' \<or> c = ''highUptake_mol'' then Float64 else Int64)"

definition example_table :: "cell \<Rightarrow> nat \<Rightarrow> table" where
  "example_table v n =
     \<lparr>t_columns = ''Unnamed: 0'' # categorical_features @ target_variables
                    @ [''a'', ''n'', ''highUptake_mol''],
      t_dtypes = example_dtypes,
      t_rows = map (example_row v) [0..<n]\<rparr>"

definition example_frame :: "cell \<Rightarrow> nat \<Rightarrow> frame" where
  "example_frame v n =
     \<lparr>columns = [''a'', ''n'', ''highUptake_mol''],
      dtypes = example_dtypes,
      rows = zip [0..<n] (map (example_row v) [0..<n])\<rparr>"

definition example_labelled :: "cell \<Rightarrow> nat \<Rightarrow> nat \<times> row" where
  "example_labelled v j = (j, (example_row v j)(''id'' := IntV (int j)))"

definition example_combined :: "nat list" where
  "example_combined = 0 # [5..<10] @ [1..<5] @ [10..<100]"

definition example_train :: "cell \<Rightarrow> nat \<Rightarrow> frame" where
  "example_train v n =
     \<lparr>columns = [''a'', ''n'', ''highUptake_mol'', ''id''],
      dtypes = example_dtypes(''id'' := Int64),
      rows = map (example_labelled v) [100..<n]\<rparr>"

definition example_test :: "cell \<Rightarrow> nat \<Rightarrow> frame" where
  "example_test v n = test_frame (with_id (example_frame v n)) example_combined"

definition example_files :: "cell \<Rightarrow> nat \<Rightarrow> rng \<Rightarrow> files" where
  "example_files v n g =
     fst (split_outputs Map.empty (replicate 100 0 @ g) (with_id (example_frame v n)) (example_test v n))"

text \<open>
  The same family with the target missing in every row, its input file and its cleaned
  frame; and two input files that lack a column: one without any column, one without
  the target column.
\<close>

definition example_missing_row :: "nat \<Rightarrow> row" where
  "example_missing_row i = (example_row (FloatV 1) i)(''highUptake_mol'' := NaN)"

definition example_missing :: "nat \<Rightarrow> table" where
  "example_missing n =
     \<lparr>t_columns = ''Unnamed: 0'' # categorical_features @ target_variables
                    @ [''a'', ''n'', ''highUptake_mol''],
      t_dtypes = example_dtypes,
      t_rows = map example_missing_row [0..<n]\<rparr>"

definition example_missing_frame :: "nat \<Rightarrow> frame" where
  "example_missing_frame n =
     \<lparr>columns = [''a'', ''n'', ''highUptake_mol''],
      dtypes = example_dtypes,
      rows = zip [0..<n] (map example_missing_row [0..<n])\<rparr>"

definition example_no_columns :: table where
  "example_no_columns = \<lparr>t_columns = [], t_dtypes = example_dtypes, t_rows = []\<rparr>"

definition example_no_target :: table where
  "example_no_target =
     \<lparr>t_columns = ''Unnamed: 0'' # categorical_features @ target_variables @ [''a'', ''n''],
      t_dtypes = example_dtypes,
      t_rows = []\<rparr>"

text \<open>Two string hashes: one orders \<open>a\<close> first, the other the target.\<close>

definition hash_a_first :: "string \<Rightarrow> nat" where
  "hash_a_first s = (if s = ''a'' then 0 else 1)"

definition hash_target_first :: "string \<Rightarrow> nat" where
  "hash_target_first s = (if s = ''highUptake_mol'' then 0 else 1)"

section \<open>The generator and the frame operations\<close>

lemma draw_snd: "snd (draw g) = drop 1 g"
  by (cases g) auto

lemma remove_nth_set: "set (take i xs @ drop (Suc i) xs) \<subseteq> set xs"
  by (auto dest: in_set_takeD in_set_dropD)

lemma pick_length: "k \<le> length pool \<Longrightarrow> length (fst (pick g pool k)) = k"
proof (induction g pool k rule: pick.induct)
  case (3 g p ps k)
  obtain r g1 where d: "draw g = (r, g1)" by (cases "draw g")
  let ?i = "r mod length (p # ps)"
  have i: "?i < length (p # ps)" by simp
  have "k \<le> length (take ?i (p # ps) @ drop (Suc ?i) (p # ps))"
    using "3.prems" i by auto
  with "3.IH"[OF d[symmetric] refl] show ?case
    using d by (simp add: split_beta Let_def)
qed auto

lemma pick_rng: "k \<le> length pool \<Longrightarrow> snd (pick g pool k) = drop k g"
proof (induction g pool k rule: pick.induct)
  case (3 g p ps k)
  obtain r g1 where d: "draw g = (r, g1)" by (cases "draw g")
  let ?i = "r mod length (p # ps)"
  have i: "?i < length (p # ps)" by simp
  have g1: "g1 = drop 1 g" using draw_snd[of g] d by simp
  have "k \<le> length (take ?i (p # ps) @ drop (Suc ?i) (p # ps))"
    using "3.prems" i by auto
  with "3.IH"[OF d[symmetric] refl] show ?case
    using d g1 by (simp add: split_beta Let_def)
qed auto

lemma pick_set: "set (fst (pick g pool k)) \<subseteq> set pool"
proof (induction g pool k rule: pick.induct)
  case (3 g p ps k)
  obtain r g1 where d: "draw g = (r, g1)" by (cases "draw g")
  let ?i = "r mod length (p # ps)"
  have i: "?i < length (p # ps)" by simp
  have a: "(p # ps) ! ?i \<in> set (p # ps)" using i nth_mem by blast
  have b: "set (fst (pick g1 (take ?i (p # ps) @ drop (Suc ?i) (p # ps)) k)) \<subseteq> set (p # ps)"
    using "3.IH"[OF d[symmetric] refl] remove_nth_set[of ?i "p # ps"] by blast
  show ?case using a b d by (simp add: split_beta Let_def)
qed auto

lemma remove_nth_distinct_map:
  assumes "distinct (map f xs)" "i < length xs"
  shows "distinct (map f (take i xs @ drop (Suc i) xs))"
    and "f (xs ! i) \<notin> f ` set (take i xs @ drop (Suc i) xs)"
proof -
  have "xs = take i xs @ xs ! i # drop (Suc i) xs"
    using assms(2) by (simp add: id_take_nth_drop)
  then have "distinct (map f (take i xs @ xs ! i # drop (Suc i) xs))"
    using assms(1) by simp
  then show "distinct (map f (take i xs @ drop (Suc i) xs))"
    and "f (xs ! i) \<notin> f ` set (take i xs @ drop (Suc i) xs)"
    by auto
qed

lemma pick_distinct_map:
  "distinct (map f pool) \<Longrightarrow> distinct (map f (fst (pick g pool k)))"
proof (induction g pool k rule: pick.induct)
  case (3 g p ps k)
  obtain r g1 where d: "draw g = (r, g1)" by (cases "draw g")
  let ?i = "r mod length (p # ps)"
  let ?rest = "take ?i (p # ps) @ drop (Suc ?i) (p # ps)"
  have i: "?i < length (p # ps)" by simp
  note rn = remove_nth_distinct_map[OF "3.prems" i]
  have ih: "distinct (map f (fst (pick g1 ?rest k)))"
    using "3.IH"[OF d[symmetric] refl refl rn(1)] .
  have "f ((p # ps) ! ?i) \<notin> f ` set (fst (pick g1 ?rest k))"
    using rn(2) pick_set[of g1 ?rest k] by blast
  then show ?case using ih d by (simp add: split_beta Let_def)
qed auto

lemma pick_zeros:
  "k \<le> length pool \<Longrightarrow> pick (replicate k 0 @ rest) pool k = (take k pool, rest)"
proof (induction k arbitrary: pool)
  case (Suc k)
  then obtain p ps where pool: "pool = p # ps" by (cases pool) auto
  with Suc show ?case by simp
qed simp

lemma pick_empty: "k \<le> length pool \<Longrightarrow> pick [] pool k = (take k pool, [])"
proof (induction k arbitrary: pool)
  case (Suc k)
  then obtain p ps where pool: "pool = p # ps" by (cases pool) auto
  with Suc show ?case by simp
qed simp


lemma rand_choice_ok:
  assumes "k \<le> length a"
  shows "rand_choice g a k = Inr (fst (pick g a k), drop k g)"
  using assms pick_rng[OF assms, of g] by (simp add: rand_choice_def prod_eq_iff)

lemma uniform_draws_length: "length (fst (uniform_draws g a b n)) = n"
  by (induction n arbitrary: g) (auto simp: split_beta Let_def)

lemma uniform_draws_rng: "snd (uniform_draws g a b n) = drop n g"
proof (induction n arbitrary: g)
  case (Suc n)
  have "snd (uniform_draws g a b (Suc n)) = drop n (snd (draw g))"
    using Suc[of "snd (draw g)"] by (simp add: split_beta Let_def)
  then show ?case by (simp add: draw_snd)
qed simp

lemma rand_uniform_Inl:
  "rand_uniform g lo hi n = Inl e \<Longrightarrow> e = OverflowError \<and> range_overflows lo hi"
  by (auto simp: rand_uniform_def range_overflows_def split: option.splits if_splits)

lemma rand_uniform_overflow:
  "range_overflows lo hi \<Longrightarrow> rand_uniform g lo hi n = Inl OverflowError"
  by (auto simp: rand_uniform_def split: option.splits)

lemma rand_uniform_Inr:
  assumes "rand_uniform g lo hi n = Inr (vals, g1)"
  shows "\<not> range_overflows lo hi" "length vals = n" "g1 = drop n g"
proof -
  obtain a b where ab: "lo = Some a" "hi = Some b" "\<not> range_overflows lo hi"
    "uniform_draws g a b n = (vals, g1)"
    using assms by (auto simp: rand_uniform_def split: option.splits if_splits)
  show "\<not> range_overflows lo hi" using ab(3) .
  show "length vals = n" using uniform_draws_length[of g a b n] ab(4) by simp
  show "g1 = drop n g" using uniform_draws_rng[of g a b n] ab(4) by simp
qed

lemma rand_uniform_ok:
  assumes "\<not> range_overflows lo hi"
  shows "\<exists>vals. rand_uniform g lo hi n = Inr (vals, drop n g) \<and> length vals = n"
proof -
  obtain a b where ab: "lo = Some a" "hi = Some b"
    using assms by (auto simp: range_overflows_def split: option.splits)
  have "rand_uniform g lo hi n = Inr (fst (uniform_draws g a b n), drop n g)"
    using assms ab uniform_draws_rng[of g a b n] by (simp add: rand_uniform_def prod_eq_iff)
  then show ?thesis using uniform_draws_length[of g a b n] by blast
qed

lemma rand_binomial_le: "fst (rand_binomial g n p) \<le> n"
proof (induction n arbitrary: g)
  case (Suc n)
  have "fst (rand_binomial (snd (draw g)) n p) \<le> n" by (rule Suc)
  then show ?case by (simp add: split_beta Let_def)
qed simp

lemma rand_binomial_rng: "snd (rand_binomial g n p) = drop n g"
proof (induction n arbitrary: g)
  case (Suc n)
  have "snd (rand_binomial g (Suc n) p) = drop n (snd (draw g))"
    using Suc[of "snd (draw g)"] by (simp add: split_beta Let_def)
  then show ?case by (simp add: draw_snd)
qed simp

lemma rand_binomial_zeros:
  "fst p < snd p \<Longrightarrow> rand_binomial (replicate m 0 @ rest) m p = (0, rest)"
  by (induction m) (auto simp: Let_def)

lemma rand_binomial_empty: "fst p < snd p \<Longrightarrow> rand_binomial [] n p = (0, [])"
  by (induction n) (auto simp: Let_def)

lemma map_snd_split: "map (\<lambda>(p, x). f x) zs = map f (map snd zs)"
  by (induction zs) auto

lemma map_zip_upt: "map (\<lambda>(p, x). f x) (zip [0..<length xs] xs) = map f xs"
  unfolding map_snd_split by (simp add: map_snd_zip)

lemma rows_add_column_label:
  "rows (add_column name ty (\<lambda>l p. v l) df) = map (\<lambda>(l, r). (l, r(name := v l))) (rows df)"
proof -
  have "(\<lambda>(p, (l, r)). (l, r(name := v l))) = (\<lambda>(p, x). (\<lambda>(l, r). (l, r(name := v l))) x)"
    by (simp add: fun_eq_iff)
  then have "map (\<lambda>(p, (l, r)). (l, r(name := v l))) (zip [0..<length (rows df)] (rows df))
      = map (\<lambda>(l, r). (l, r(name := v l))) (rows df)"
    using map_zip_upt[of "\<lambda>(l, r). (l, r(name := v l))" "rows df"] by simp
  then show ?thesis by (simp add: add_column_def)
qed

lemma index_add_column: "index (add_column name ty val df) = index df"
proof -
  have "map fst (map (\<lambda>(p, (l, r)). (l, r(name := val l p))) zs) = map fst (map snd zs)"
    for zs :: "(nat \<times> nat \<times> row) list"
    by (induction zs) auto
  then show ?thesis by (simp add: index_def add_column_def map_snd_zip del: map_map)
qed

lemma len_add_column: "len (add_column name ty val df) = len df"
  by (simp add: len_def add_column_def)

lemma mset_sort_desc: "mset (sort_desc col rs) = mset rs"
  by (simp add: sort_desc_def)

lemma set_sort_desc: "set (sort_desc col rs) = set rs"
  by (simp add: sort_desc_def)

lemma length_sort_desc: "length (sort_desc col rs) = length rs"
  by (simp add: sort_desc_def)

lemma distinct_fst_sort_desc: "distinct (map fst (sort_desc col rs)) = distinct (map fst rs)"
proof -
  have "mset (map fst (sort_desc col rs)) = mset (map fst rs)"
    by (simp add: mset_sort_desc)
  then show ?thesis by (rule mset_eq_imp_distinct_iff)
qed

lemma index_difference_props:
  "distinct (index_difference idx labels)"
  "set (index_difference idx labels) = set idx - set labels"
  by (auto simp: index_difference_def)

lemma index_difference_length:
  assumes "distinct idx" "distinct labels" "set labels \<subseteq> set idx"
  shows "length (index_difference idx labels) = length idx - length labels"
proof -
  have "length (index_difference idx labels) = card (set idx - set labels)"
    using index_difference_props[of idx labels] distinct_card by metis
  also have "\<dots> = card (set idx) - card (set labels)"
    using assms(3) by (simp add: card_Diff_subset)
  finally show ?thesis using assms(1,2) by (simp add: distinct_card)
qed


lemma nlargest_Inr:
  "nlargest n col df = Inr x \<Longrightarrow> col \<in> set (columns df) \<and> dtypes df col \<noteq> Object"
  by (auto simp: nlargest_def split: if_splits)

lemma held_out_indices_Inr:
  assumes "held_out_indices g df = Inr x"
  shows "''highUptake_mol'' \<in> set (columns df)" "dtypes df ''highUptake_mol'' \<noteq> Object"
proof -
  obtain b where "nlargest 1 ''highUptake_mol'' df = Inr b"
    using assms by (auto simp: held_out_indices_def split: sum.splits)
  then show "''highUptake_mol'' \<in> set (columns df)" "dtypes df ''highUptake_mol'' \<noteq> Object"
    using nlargest_Inr by blast+
qed

lemma best_rows_facts:
  fixes g :: rng
  assumes dist: "distinct (index df)"
    and n: "10 \<le> len df"
  defines "s \<equiv> sort_desc ''highUptake_mol'' (rows df)"
  defines "great \<equiv> fst (pick g (drop 5 (take 15 s)) 5)"
  defines "best_rows \<equiv> fst (hd s) # map fst great"
  shows "take (Suc 0) s = [hd s]"
    and "length great = 5"
    and "sample g (df\<lparr>rows := drop 5 (take 15 s)\<rparr>) 5 = Inr (df\<lparr>rows := great\<rparr>, drop 5 g)"
    and "distinct best_rows"
    and "set best_rows \<subseteq> set (index df)"
    and "length (index_difference (index df) best_rows) = len df - 6"
proof -
  let ?pool = "drop 5 (take 15 s)"
  have len_s: "length s = len df" by (simp add: s_def length_sort_desc len_def)
  have dist_s: "distinct (map fst s)"
    using dist by (simp add: s_def distinct_fst_sort_desc index_def)
  have len_pool: "5 \<le> length ?pool" using len_s n by simp
  show smp: "sample g (df\<lparr>rows := ?pool\<rparr>) 5 = Inr (df\<lparr>rows := great\<rparr>, drop 5 g)"
    using rand_choice_ok[of 5 ?pool g] len_pool by (simp add: sample_def great_def)
  have s_ne: "s \<noteq> []" using len_s n by auto
  show take1: "take (Suc 0) s = [hd s]" using s_ne by (cases s; simp)
  show len_great: "length great = 5" using pick_length[of 5 ?pool g] len_pool by (simp add: great_def)
  have set_great: "set great \<subseteq> set (drop 5 s)"
  proof -
    have "?pool = take 10 (drop 5 s)" by (simp add: drop_take)
    then have "set ?pool \<subseteq> set (drop 5 s)" by (metis set_take_subset)
    then show ?thesis using pick_set[of g ?pool 5] unfolding great_def by blast
  qed
  have dist_pool: "distinct (map fst ?pool)"
    using dist_s by (simp add: distinct_take distinct_drop take_map[symmetric] drop_map[symmetric])
  have dist_great: "distinct (map fst great)"
    unfolding great_def using pick_distinct_map[OF dist_pool] .
  have split_s: "map fst s = map fst (take 5 s) @ map fst (drop 5 s)"
    by (metis append_take_drop_id map_append)
  have hd_in: "hd s \<in> set (take 5 s)" using s_ne by (cases s) auto
  have hd_notin: "fst (hd s) \<notin> fst ` set great"
  proof
    assume "fst (hd s) \<in> fst ` set great"
    then have "fst (hd s) \<in> set (map fst (drop 5 s))" using set_great by auto
    moreover have "fst (hd s) \<in> set (map fst (take 5 s))" using hd_in by auto
    moreover have "distinct (map fst (take 5 s) @ map fst (drop 5 s))"
      using dist_s split_s by simp
    ultimately show False by auto
  qed
  show dist_best: "distinct best_rows" using hd_notin dist_great by (simp add: best_rows_def)
  have len_best: "length best_rows = 6" using len_great by (simp add: best_rows_def)
  have set_s: "set s = set (rows df)" unfolding s_def by (rule set_sort_desc)
  show sub_best: "set best_rows \<subseteq> set (index df)"
  proof -
    have "hd s \<in> set s" using s_ne by simp
    moreover have "set great \<subseteq> set s" using set_great by (meson in_set_dropD subset_iff)
    ultimately show ?thesis using set_s by (auto simp: index_def best_rows_def)
  qed
  show "length (index_difference (index df) best_rows) = len df - 6"
    using index_difference_length[OF dist dist_best sub_best] len_best
    by (simp add: index_def len_def)
qed

lemma held_out_indices_ok:
  assumes dist: "distinct (index df)"
    and n: "100 \<le> len df"
    and col: "''highUptake_mol'' \<in> set (columns df)"
    and ty: "dtypes df ''highUptake_mol'' \<noteq> Object"
  shows "held_out_indices g df = Inr (held_out_of g df, drop 99 g)"
    and "distinct (held_out_of g df)"
    and "length (held_out_of g df) = 100"
    and "set (held_out_of g df) \<subseteq> set (index df)"
    and "hd (held_out_of g df) = fst (hd (sort_desc ''highUptake_mol'' (rows df)))"
proof -
  let ?s = "sort_desc ''highUptake_mol'' (rows df)"
  let ?pool = "drop 5 (take 15 ?s)"
  let ?great = "fst (pick g ?pool 5)"
  let ?best_rows = "fst (hd ?s) # map fst ?great"
  let ?pool2 = "index_difference (index df) ?best_rows"
  let ?add = "fst (pick (drop 5 g) ?pool2 94)"
  have n10: "10 \<le> len df" using n by simp
  note b = best_rows_facts[OF dist n10]
  have nl1: "nlargest 1 ''highUptake_mol'' df = Inr (df\<lparr>rows := take 1 ?s\<rparr>)"
    using col ty by (simp add: nlargest_def)
  have nl15: "nlargest 15 ''highUptake_mol'' df = Inr (df\<lparr>rows := take 15 ?s\<rparr>)"
    using col ty by (simp add: nlargest_def)
  have len_pool2: "length ?pool2 = len df - 6" using b(6) .
  have ch: "rand_choice (drop 5 g) ?pool2 94 = Inr (?add, drop 99 g)"
    using rand_choice_ok[of 94 ?pool2 "drop 5 g"] len_pool2 n by simp
  have len_add: "length ?add = 94"
    using pick_length[of 94 ?pool2 "drop 5 g"] len_pool2 n by simp
  have set_add: "set ?add \<subseteq> set (index df) - set ?best_rows"
    using pick_set[of "drop 5 g" ?pool2 94] index_difference_props(2)[of "index df" ?best_rows]
    by simp
  have dist_add: "distinct ?add"
    using pick_distinct_map[of id ?pool2 "drop 5 g" 94] index_difference_props(1)[of "index df" ?best_rows]
    by simp
  let ?combined = "?best_rows @ ?add"
  have eq: "held_out_of g df = ?combined" by (simp add: held_out_of_def Let_def)
  have res: "held_out_indices g df = Inr (?combined, drop 99 g)"
    unfolding held_out_indices_def nl1 nl15
    by (simp add: b(3) Let_def index_def b(1) b(2) ch[unfolded index_def])
  show "held_out_indices g df = Inr (held_out_of g df, drop 99 g)" unfolding eq by (rule res)
  show "distinct (held_out_of g df)" unfolding eq using b(4) dist_add set_add by auto
  show "length (held_out_of g df) = 100" unfolding eq using b(2) len_add by simp
  show "set (held_out_of g df) \<subseteq> set (index df)" unfolding eq using b(5) set_add by auto
  show "hd (held_out_of g df) = fst (hd ?s)" unfolding eq by simp
qed

lemma held_out_indices_len:
  assumes r: "held_out_indices g df = Inr x"
    and dist: "distinct (index df)"
  shows "100 \<le> len df"
proof -
  let ?s = "sort_desc ''highUptake_mol'' (rows df)"
  let ?pool = "drop 5 (take 15 ?s)"
  let ?great = "fst (pick g ?pool 5)"
  let ?best_rows = "fst (hd ?s) # map fst ?great"
  let ?pool2 = "index_difference (index df) ?best_rows"
  note ct = held_out_indices_Inr[OF r]
  have nl1: "nlargest 1 ''highUptake_mol'' df = Inr (df\<lparr>rows := take 1 ?s\<rparr>)"
    using ct by (simp add: nlargest_def)
  have nl15: "nlargest 15 ''highUptake_mol'' df = Inr (df\<lparr>rows := take 15 ?s\<rparr>)"
    using ct by (simp add: nlargest_def)
  obtain gr g1 where smp: "sample g (df\<lparr>rows := ?pool\<rparr>) 5 = Inr (gr, g1)"
    using r unfolding held_out_indices_def nl1 nl15 by (auto split: sum.splits)
  have "5 \<le> length ?pool"
    using smp by (auto simp: sample_def rand_choice_def split: if_splits)
  then have n10: "10 \<le> len df" by (simp add: length_sort_desc len_def)
  note b = best_rows_facts[OF dist n10]
  obtain y where ch: "rand_choice (drop 5 g) ?pool2 94 = Inr y"
    using r unfolding held_out_indices_def nl1 nl15
    by (auto simp: b(3) Let_def index_def b(1) b(2) split: sum.splits)
  have "94 \<le> length ?pool2"
    using ch by (auto simp: rand_choice_def split: if_splits)
  then show ?thesis using b(6) by simp
qed


lemma map_of_in:
  assumes "l \<in> fst ` set rs"
  shows "\<exists>r. map_of rs l = Some r \<and> (l, r) \<in> set rs"
proof -
  have "map_of rs l \<noteq> None" using assms by (simp add: map_of_eq_None_iff)
  then obtain r where "map_of rs l = Some r" by auto
  then show ?thesis by (auto dest: map_of_SomeD)
qed

lemma loc_rows_ok:
  assumes "set ls \<subseteq> fst ` set rs"
  shows "loc_rows rs ls = Some (map (\<lambda>l. (l, the (map_of rs l))) ls)"
  using assms
proof (induction ls)
  case (Cons l ls)
  then obtain r where "map_of rs l = Some r"
    using map_of_in[of l rs] by auto
  with Cons show ?case by simp
qed simp

lemma loc_ok:
  assumes "set ls \<subseteq> set (index df)"
  shows "loc df ls = Inr (df\<lparr>rows := map (\<lambda>l. (l, the (map_of (rows df) l))) ls\<rparr>)"
  using loc_rows_ok[of ls "rows df"] assms by (simp add: loc_def index_def)

lemma loc_rows_subset:
  assumes "set ls \<subseteq> fst ` set rs"
  shows "set (map (\<lambda>l. (l, the (map_of rs l))) ls) \<subseteq> set rs"
proof
  fix x assume "x \<in> set (map (\<lambda>l. (l, the (map_of rs l))) ls)"
  then obtain l where l: "l \<in> set ls" "x = (l, the (map_of rs l))" by auto
  then obtain r where "map_of rs l = Some r" "(l, r) \<in> set rs"
    using assms map_of_in[of l rs] by auto
  then show "x \<in> set rs" using l by simp
qed

lemma drop_index_ok:
  assumes "set ls \<subseteq> set (index df)"
  shows "drop_index ls df = Inr (df\<lparr>rows := filter (\<lambda>(l, r). l \<notin> set ls) (rows df)\<rparr>)"
  using assms by (auto simp: drop_index_def)

lemma filter_rows_index:
  "map fst (filter (\<lambda>(l, r). l \<notin> A) rs) = filter (\<lambda>l. l \<notin> A) (map fst rs)"
  by (induction rs) auto

lemma length_filter_rows:
  assumes "distinct (map fst rs)" "distinct ls" "set ls \<subseteq> fst ` set rs"
  shows "length (filter (\<lambda>(l, r). l \<notin> set ls) rs) = length rs - length ls"
proof -
  have "length (filter (\<lambda>(l, r). l \<notin> set ls) rs) = length (filter (\<lambda>l. l \<notin> set ls) (map fst rs))"
    using filter_rows_index[of "set ls" rs] by (metis length_map)
  also have "\<dots> = card ({l. l \<notin> set ls} \<inter> set (map fst rs))"
    using assms(1) by (rule distinct_length_filter)
  also have "{l. l \<notin> set ls} \<inter> set (map fst rs) = set (map fst rs) - set ls" by auto
  also have "card (set (map fst rs) - set ls) = card (set (map fst rs)) - card (set ls)"
    using assms(3) by (simp add: card_Diff_subset)
  finally show ?thesis using assms(1,2) distinct_card[of "map fst rs"] distinct_card[of ls] by simp
qed

lemma id_ok_column:
  "id_ok rs \<Longrightarrow> map (\<lambda>(l, r). r ''id'') rs = map (\<lambda>l. IntV (int l)) (map fst rs)"
  by (induction rs) (auto simp: id_ok_def)

lemma id_ok_subset: "id_ok rs \<Longrightarrow> set rs' \<subseteq> set rs \<Longrightarrow> id_ok rs'"
  by (auto simp: id_ok_def)

lemma id_ok_add_column: "id_ok (rows (add_column ''id'' Int64 (\<lambda>l p. IntV (int l)) df0))"
  by (auto simp: rows_add_column_label id_ok_def)

lemma distinct_map_IntV: "distinct (map (\<lambda>l. IntV (int l)) ls) = distinct ls"
  by (simp add: distinct_map inj_on_def)

section \<open>The split\<close>

lemma split_outputs_overflow:
  assumes "''id'' \<in> set (columns df_test)" "''highUptake_mol'' \<in> set (columns df_test)"
    and "range_overflows (col_min ''highUptake_mol'' df) (col_max ''highUptake_mol'' df)"
  shows "split_outputs fs g df df_test =
     (fs(''./data/solution.csv'' \<mapsto> to_csv (add_column ''Usage'' Object (\<lambda>l p. StrV ''Public'') (df_test\<lparr>columns := [''id'', ''highUptake_mol'']\<rparr>)),
         ''./data/test.csv'' \<mapsto> to_csv (df_test\<lparr>columns := filter (\<lambda>c. c \<notin> set [''highUptake_mol'']) (columns df_test)\<rparr>)),
      Inl OverflowError)"
  using assms(1,2) rand_uniform_overflow[OF assms(3), of g "len df_test"]
  by (simp add: split_outputs_def select_columns_def drop_columns_def Let_def)

lemma split_outputs_eq:
  assumes "''id'' \<in> set (columns df_test)" "''highUptake_mol'' \<in> set (columns df_test)"
    and "\<not> range_overflows (col_min ''highUptake_mol'' df) (col_max ''highUptake_mol'' df)"
  shows "\<exists>vals. length vals = len df_test \<and> split_outputs fs g df df_test =
     (fs(''./data/solution.csv'' \<mapsto> to_csv (add_column ''Usage'' Object (\<lambda>l p. StrV ''Public'') (df_test\<lparr>columns := [''id'', ''highUptake_mol'']\<rparr>)),
         ''./data/test.csv'' \<mapsto> to_csv (df_test\<lparr>columns := filter (\<lambda>c. c \<notin> set [''highUptake_mol'']) (columns df_test)\<rparr>),
         ''./data/sample_submission.csv'' \<mapsto> to_csv (add_column ''highUptake_mol'' Float64
             (\<lambda>l p. vals ! p) (df_test\<lparr>columns := [''id'']\<rparr>))),
      Inr (drop (len df_test) g))"
proof -
  obtain vals where v: "rand_uniform g (col_min ''highUptake_mol'' df) (col_max ''highUptake_mol'' df) (len df_test)
       = Inr (vals, drop (len df_test) g)" "length vals = len df_test"
    using rand_uniform_ok[OF assms(3), of g "len df_test"] by blast
  show ?thesis
    apply (rule exI[of _ vals])
    using assms(1,2) v
    by (simp add: split_outputs_def select_columns_def drop_columns_def Let_def)
qed

lemma split_outputs_snd:
  assumes "''id'' \<in> set (columns df_test)" "''highUptake_mol'' \<in> set (columns df_test)"
  shows "snd (split_outputs fs g df df_test) =
     (if range_overflows (col_min ''highUptake_mol'' df) (col_max ''highUptake_mol'' df)
      then Inl OverflowError else Inr (drop (len df_test) g))"
  using split_outputs_overflow[OF assms, of df fs g] split_outputs_eq[OF assms, of df fs g]
  by (cases "range_overflows (col_min ''highUptake_mol'' df) (col_max ''highUptake_mol'' df)") auto

lemma columns_add_id:
  "columns (add_column ''id'' Int64 v df0) = (if ''id'' \<in> set (columns df0) then columns df0 else columns df0 @ [''id''])"
  by (simp add: add_column_def)

lemma col_values_with_id:
  "col_values ''highUptake_mol'' (with_id df0) = col_values ''highUptake_mol'' df0"
proof -
  have "map (\<lambda>(l, r). case num_of (r ''highUptake_mol'') of None \<Rightarrow> [] | Some x \<Rightarrow> [x])
          (map (\<lambda>(l, r). (l, r(''id'' := IntV (int l)))) rs)
      = map (\<lambda>(l, r). case num_of (r ''highUptake_mol'') of None \<Rightarrow> [] | Some x \<Rightarrow> [x]) rs"
    for rs :: "(nat \<times> row) list"
    by (induction rs) auto
  then show ?thesis
    unfolding col_values_def with_id_def rows_add_column_label by (rule arg_cong)
qed

lemma col_min_max_with_id:
  "col_min ''highUptake_mol'' (with_id df0) = col_min ''highUptake_mol'' df0"
  "col_max ''highUptake_mol'' (with_id df0) = col_max ''highUptake_mol'' df0"
  by (simp_all add: col_min_def col_max_def col_values_with_id)

lemma splitter_split:
  assumes dist: "distinct (index df0)"
    and n: "100 \<le> len df0"
    and col: "''highUptake_mol'' \<in> set (columns df0)"
    and ty: "dtypes df0 ''highUptake_mol'' \<noteq> Object"
  shows "splitter fs g df0 =
           (fst (split_outputs fs (drop 99 g) (with_id df0)
                  (test_frame (with_id df0) (held_out_of g (with_id df0)))),
            if range_overflows (col_min ''highUptake_mol'' df0) (col_max ''highUptake_mol'' df0)
            then Inl OverflowError
            else Inr (train_frame (with_id df0) (held_out_of g (with_id df0)),
                      test_frame (with_id df0) (held_out_of g (with_id df0)),
                      drop 199 g))"
proof -
  define df where "df = with_id df0"
  define combined where "combined = held_out_of g df"
  have df: "df = add_column ''id'' Int64 (\<lambda>l p. IntV (int l)) df0"
    by (simp add: df_def with_id_def)
  have idx: "index df = index df0" by (simp add: df index_add_column)
  have len: "len df = len df0" by (simp add: df len_add_column)
  have cols: "''highUptake_mol'' \<in> set (columns df)" "''id'' \<in> set (columns df)"
    using col by (auto simp: df columns_add_id)
  have ty': "dtypes df ''highUptake_mol'' \<noteq> Object"
    using ty by (simp add: df add_column_def)
  have c: "held_out_indices g df = Inr (combined, drop 99 g)"
      "distinct combined" "length combined = 100" "set combined \<subseteq> set (index df)"
    unfolding combined_def
    using held_out_indices_ok[of df g] dist n cols(1) ty' idx len by auto
  let ?test = "test_frame df combined"
  let ?train = "train_frame df combined"
  have sub: "set combined \<subseteq> fst ` set (rows df)" using c(4) by (simp add: index_def)
  have lc: "loc df combined = Inr ?test" using loc_ok[OF c(4)] by (simp add: test_frame_def)
  have di: "drop_index combined df = Inr ?train" using drop_index_ok[OF c(4)] by (simp add: train_frame_def)
  have len_test: "len ?test = 100" using c(3) by (simp add: len_def test_frame_def)
  have tc: "''id'' \<in> set (columns ?test)" "''highUptake_mol'' \<in> set (columns ?test)"
    using cols by (simp_all add: test_frame_def)
  have mm: "col_min ''highUptake_mol'' df = col_min ''highUptake_mol'' df0"
    "col_max ''highUptake_mol'' df = col_max ''highUptake_mol'' df0"
    unfolding df_def by (rule col_min_max_with_id)+
  have so: "snd (split_outputs fs (drop 99 g) df ?test)
              = (if range_overflows (col_min ''highUptake_mol'' df0) (col_max ''highUptake_mol'' df0)
                 then Inl OverflowError else Inr (drop 199 g))"
    using split_outputs_snd[OF tc, of fs "drop 99 g" df] len_test by (simp add: mm)
  have dist_rows: "distinct (map fst (rows df))" using dist idx by (simp add: index_def)
  have len_train: "len ?train = len df0 - 100"
    using length_filter_rows[OF dist_rows c(2) sub] c(3) len by (simp add: len_def train_frame_def)
  have a1: "len ?train + len ?test = len df0" using len_train len_test n by simp
  have ok: "id_ok (rows df)" unfolding df by (rule id_ok_add_column)
  have ok_train: "id_ok (rows ?train)" using ok by (auto simp: id_ok_def train_frame_def)
  have ok_test: "id_ok (rows ?test)"
    using id_ok_subset[OF ok loc_rows_subset[OF sub]] by (simp add: test_frame_def)
  have col_train: "column ''id'' ?train = map (\<lambda>l. IntV (int l)) (filter (\<lambda>l. l \<notin> set combined) (index df))"
    using id_ok_column[OF ok_train] by (simp add: column_def filter_rows_index index_def train_frame_def)
  have col_test: "column ''id'' ?test = map (\<lambda>l. IntV (int l)) combined"
    using id_ok_column[OF ok_test] by (simp add: column_def comp_def test_frame_def)
  have a2: "distinct (column ''id'' ?train)"
    unfolding col_train distinct_map_IntV using dist idx by simp
  have a3: "distinct (column ''id'' ?test)"
    unfolding col_test distinct_map_IntV using c(2) .
  have a4: "\<not> (\<exists>c \<in> set (column ''id'' ?train). c \<in> set (column ''id'' ?test))"
    unfolding col_train col_test by auto
  obtain fs1 r where sp: "split_outputs fs (drop 99 g) df ?test = (fs1, r)"
    by (cases "split_outputs fs (drop 99 g) df ?test")
  have main: "splitter fs g df0 =
      (fs1, if range_overflows (col_min ''highUptake_mol'' df0) (col_max ''highUptake_mol'' df0)
            then Inl OverflowError else Inr (?train, ?test, drop 199 g))"
  proof (cases "range_overflows (col_min ''highUptake_mol'' df0) (col_max ''highUptake_mol'' df0)")
    case True
    then have r: "r = Inl OverflowError" using so sp by simp
    show ?thesis
      unfolding splitter_def df[symmetric] Let_def c(1)
      by (simp only: sum.case prod.case lc sp r True if_True)
  next
    case False
    then have r: "r = Inr (drop 199 g)" using so sp by simp
    show ?thesis
      unfolding splitter_def df[symmetric] Let_def c(1)
      by (simp only: sum.case prod.case lc di sp r False a1 a2 a3 a4 if_False if_True
          not_True_eq_False simp_thms)
  qed
  then show ?thesis using sp unfolding combined_def df_def by simp
qed

lemma splitter_ok:
  assumes dist: "distinct (index df0)"
    and n: "100 \<le> len df0"
    and col: "''highUptake_mol'' \<in> set (columns df0)"
    and ty: "dtypes df0 ''highUptake_mol'' \<noteq> Object"
    and fin: "\<not> range_overflows (col_min ''highUptake_mol'' df0) (col_max ''highUptake_mol'' df0)"
  shows "splitter fs g df0 =
           (fst (split_outputs fs (drop 99 g) (with_id df0)
                  (test_frame (with_id df0) (held_out_of g (with_id df0)))),
            Inr (train_frame (with_id df0) (held_out_of g (with_id df0)),
                 test_frame (with_id df0) (held_out_of g (with_id df0)),
                 drop 199 g))"
  using splitter_split[OF dist n col ty, of fs g] fin by simp

section \<open>The corruption\<close>

lemma set_nan_simps:
  "columns (set_nan idx cols df) = columns df"
  "dtypes (set_nan idx cols df) = dtypes df"
  "index (set_nan idx cols df) = index df"
  "len (set_nan idx cols df) = len df"
  by (auto simp: set_nan_def index_def len_def split_beta)

lemma set_nan_label: "p < len df \<Longrightarrow> label_at (set_nan idx cols df) p = label_at df p"
  by (simp add: set_nan_def label_at_def len_def split_beta)

lemma set_nan_cell:
  "p < len df \<Longrightarrow> cell_at (set_nan idx cols df) p c
     = (if label_at df p = idx \<and> c \<in> set cols then NaN else cell_at df p c)"
  by (simp add: set_nan_def cell_at_def label_at_def len_def split_beta)

lemma num_nans_pos: "0 < fst (num_nans g df)"
  by (simp add: num_nans_def split_beta)

lemma num_nans_le: "fst (num_nans g df) \<le> length (columns df) + 1"
  using rand_binomial_le[of g "length (columns df)" "(1, 10)"]
  by (simp add: num_nans_def split_beta)

lemma num_nans_rng: "snd (num_nans g df) = drop (length (columns df)) g"
  by (simp add: num_nans_def split_beta rand_binomial_rng)

lemma num_nans_empty: "num_nans [] df = (1, [])"
  by (simp add: num_nans_def rand_binomial_empty)

lemma rand_choice_props:
  assumes "rand_choice g a k = Inr (xs, g')"
  shows "length xs = k" "set xs \<subseteq> set a" "g' = drop k g" "k \<le> length a"
    and "distinct (map f a) \<Longrightarrow> distinct (map f xs)"
proof -
  have k: "k \<le> length a" using assms by (auto simp: rand_choice_def split: if_splits)
  then show "k \<le> length a" .
  have xs: "xs = fst (pick g a k)" "g' = snd (pick g a k)"
    using assms k by (auto simp: rand_choice_def)
  show "length xs = k" using pick_length[OF k] xs by simp
  show "set xs \<subseteq> set a" using pick_set[of g a k] xs by simp
  show "g' = drop k g" using pick_rng[OF k] xs by simp
  show "distinct (map f a) \<Longrightarrow> distinct (map f xs)" using pick_distinct_map[of f a g k] xs by simp
qed

lemma rand_choice_error: "rand_choice g a k = Inl e \<Longrightarrow> e = ValueError \<and> length a < k"
  by (auto simp: rand_choice_def split: if_splits)

lemma corrupt_rows_step:
  assumes "corrupt_rows fcols g df (idx # rest) = Inr (df', g')"
  shows "\<exists>cols. set cols \<subseteq> set fcols \<and> cols \<noteq> [] \<and> length cols = fst (num_nans g df)
           \<and> (distinct fcols \<longrightarrow> distinct cols)
           \<and> rand_choice (snd (num_nans g df)) fcols (fst (num_nans g df))
                = Inr (cols, drop (fst (num_nans g df)) (snd (num_nans g df)))
           \<and> corrupt_rows fcols (drop (fst (num_nans g df)) (snd (num_nans g df))) (set_nan idx cols df) rest
                = Inr (df', g')"
proof -
  obtain k g1 where kn: "num_nans g df = (k, g1)" by (cases "num_nans g df")
  have kpos: "0 < k" using num_nans_pos[of g df] kn by simp
  obtain cols g2 where ch: "rand_choice g1 fcols k = Inr (cols, g2)"
    using assms kn by (auto split: sum.splits)
  note p = rand_choice_props[OF ch]
  have rec: "corrupt_rows fcols g2 (set_nan idx cols df) rest = Inr (df', g')"
    using assms kn ch by simp
  have "cols \<noteq> []" using p(1) kpos by auto
  then show ?thesis using p(1,2,3) p(5)[of id] ch rec kn by auto
qed

lemma corrupt_rows_frame:
  assumes "corrupt_rows fcols g df idxs = Inr (df', g')"
  shows "columns df' = columns df \<and> dtypes df' = dtypes df \<and> index df' = index df \<and> len df' = len df
       \<and> (\<forall>p c. p < len df \<longrightarrow> label_at df' p = label_at df p
              \<and> (cell_at df' p c \<noteq> cell_at df p c \<longrightarrow>
                   cell_at df' p c = NaN \<and> label_at df p \<in> set idxs \<and> c \<in> set fcols))"
  using assms
proof (induction idxs arbitrary: g df)
  case Nil
  then show ?case by simp
next
  case (Cons idx rest)
  obtain cols where c: "set cols \<subseteq> set fcols"
    and rec: "corrupt_rows fcols (drop (fst (num_nans g df)) (snd (num_nans g df))) (set_nan idx cols df) rest
                = Inr (df', g')"
    using corrupt_rows_step[OF Cons.prems] by blast
  note ih = Cons.IH[OF rec]
  show ?case
  proof (intro conjI allI impI)
    show "columns df' = columns df" "dtypes df' = dtypes df" "index df' = index df" "len df' = len df"
      using ih by (simp_all add: set_nan_simps)
  next
    fix p c assume p: "p < len df"
    then show "label_at df' p = label_at df p"
      using ih by (simp add: set_nan_simps set_nan_label)
  next
    fix p c assume p: "p < len df" and ne: "cell_at df' p c \<noteq> cell_at df p c"
    have p1: "p < len (set_nan idx cols df)" using p by (simp add: set_nan_simps)
    show "cell_at df' p c = NaN"
      using ih p1 ne set_nan_cell[OF p, of idx cols c] by (metis)
    show "label_at df p \<in> set (idx # rest)"
      using ih p1 ne set_nan_cell[OF p, of idx cols c] set_nan_label[OF p, of idx cols]
      by (metis list.set_intros(1) list.set_intros(2))
    show "c \<in> set fcols"
      using ih p1 ne set_nan_cell[OF p, of idx cols c] c by (metis subsetD)
  qed
qed

lemma corrupt_rows_marks:
  assumes "corrupt_rows fcols g df idxs = Inr (df', g')"
    and "p < len df" "label_at df p \<in> set idxs"
  shows "\<exists>c \<in> set fcols. cell_at df' p c = NaN"
  using assms
proof (induction idxs arbitrary: g df)
  case Nil
  then show ?case by simp
next
  case (Cons idx rest)
  obtain cols where c: "set cols \<subseteq> set fcols" "cols \<noteq> []"
    and rec: "corrupt_rows fcols (drop (fst (num_nans g df)) (snd (num_nans g df))) (set_nan idx cols df) rest
                = Inr (df', g')"
    using corrupt_rows_step[OF Cons.prems(1)] by blast
  let ?df1 = "set_nan idx cols df"
  have p1: "p < len ?df1" using Cons.prems(2) by (simp add: set_nan_simps)
  show ?case
  proof (cases "label_at df p \<in> set rest")
    case True
    then show ?thesis
      using Cons.IH[OF rec p1] set_nan_label[OF Cons.prems(2), of idx cols] by simp
  next
    case False
    then have l: "label_at df p = idx" using Cons.prems(3) by simp
    have h: "hd cols \<in> set cols" using c(2) by simp
    have "cell_at ?df1 p (hd cols) = NaN"
      using set_nan_cell[OF Cons.prems(2), of idx cols "hd cols"] l h by simp
    then have "cell_at df' p (hd cols) = NaN"
      using corrupt_rows_frame[OF rec] p1 by metis
    then show ?thesis using h c(1) by blast
  qed
qed

lemma set_float64_columns:
  "set (float64_columns h df) = {c \<in> set (columns df). dtypes df c = Float64}"
  by (auto simp: float64_columns_def set_to_list_def select_dtypes_exclude_def)

lemma corruptor_cases:
  assumes "corruptor h g df = Inr (df', g')"
  shows "\<exists>sel. rand_choice g (index df) (len df div 8) = Inr (sel, drop (len df div 8) g)
           \<and> corrupt_rows (float64_columns h df) (drop (len df div 8) g) df sel = Inr (df', g')
           \<and> length sel = len df div 8 \<and> set sel \<subseteq> set (index df)
           \<and> (distinct (index df) \<longrightarrow> distinct sel)"
proof -
  obtain sel g1 where ch: "rand_choice g (index df) (len df div 8) = Inr (sel, g1)"
    using assms by (auto simp: corruptor_def split: sum.splits)
  note p = rand_choice_props[OF ch]
  have "corrupt_rows (float64_columns h df) g1 df sel = Inr (df', g')"
    using assms ch by (simp add: corruptor_def)
  then show ?thesis using p(1,2,3) p(5)[of id] ch by auto
qed

section \<open>The whole run\<close>

lemma clean_props:
  assumes "clean (read_csv t) = Inr df0"
  shows "rows df0 = zip [0..<length (t_rows t)] (t_rows t)"
    and "dtypes df0 = t_dtypes t"
    and "columns df0 = filter (\<lambda>c. c \<notin> set target_variables)
           (filter (\<lambda>c. c \<notin> set categorical_features)
             (filter (\<lambda>c. c \<notin> set [''Unnamed: 0'']) (t_columns t)))"
  using assms
  by (auto simp: clean_def drop_columns_def read_csv_def split: sum.splits if_splits)

lemma clean_index:
  assumes "clean (read_csv t) = Inr df0"
  shows "index df0 = [0..<length (t_rows t)]" "len df0 = length (t_rows t)"
  using clean_props(1)[OF assms] by (simp_all add: index_def len_def)

lemma splitter_asserts:
  assumes "splitter fs g df0 = (fs', Inr (df_train, df_test, g'))"
  shows "len df_train + len df_test = len df0"
    and "distinct (column ''id'' df_train)"
    and "distinct (column ''id'' df_test)"
    and "set (column ''id'' df_train) \<inter> set (column ''id'' df_test) = {}"
  using assms
  by (auto simp: splitter_def Let_def split: sum.splits prod.splits if_splits)

lemma clean_example: "clean (read_csv (example_table v n)) = Inr (example_frame v n)"
  by (simp add: clean_def read_csv_def example_table_def example_frame_def drop_columns_def
      categorical_features_def target_variables_def)

lemma pipeline_split:
  assumes cl: "clean (read_csv t) = Inr df0"
    and n: "100 \<le> length (t_rows t)"
    and col: "''highUptake_mol'' \<in> set (columns df0)"
    and ty: "dtypes df0 ''highUptake_mol'' \<noteq> Object"
    and fin: "\<not> range_overflows (col_min ''highUptake_mol'' df0) (col_max ''highUptake_mol'' df0)"
    and fs3: "fs3 = fst (split_outputs Map.empty (drop 99 g) (with_id df0)
                      (test_frame (with_id df0) (held_out_of g (with_id df0))))"
  shows "pipeline h g t =
           (case corruptor h (drop 199 g) (train_frame (with_id df0) (held_out_of g (with_id df0))) of
              Inl e \<Rightarrow> (fs3, Some e)
            | Inr (df_nan, g1) \<Rightarrow> (fs3(''./data/train.csv'' \<mapsto> to_csv df_nan), None))"
proof -
  have i: "distinct (index df0)" "100 \<le> len df0"
    using clean_index[OF cl] n by simp_all
  show ?thesis
    by (simp add: pipeline_def cl splitter_ok[OF i col ty fin] fs3 split: sum.splits)
qed

lemma pipeline_overflow:
  assumes cl: "clean (read_csv t) = Inr df0"
    and n: "100 \<le> length (t_rows t)"
    and col: "''highUptake_mol'' \<in> set (columns df0)"
    and ty: "dtypes df0 ''highUptake_mol'' \<noteq> Object"
    and ovf: "range_overflows (col_min ''highUptake_mol'' df0) (col_max ''highUptake_mol'' df0)"
  shows "pipeline h g t =
           (fst (split_outputs Map.empty (drop 99 g) (with_id df0)
                   (test_frame (with_id df0) (held_out_of g (with_id df0)))), Some OverflowError)"
proof -
  have i: "distinct (index df0)" "100 \<le> len df0"
    using clean_index[OF cl] n by simp_all
  show ?thesis
    by (simp add: pipeline_def cl splitter_split[OF i col ty] ovf)
qed

lemma sorted_le_last: "sorted xs \<Longrightarrow> x \<in> set xs \<Longrightarrow> x \<le> last xs"
  by (induction xs) auto

lemma sort_desc_hd:
  assumes "x \<in> set rs"
    and "\<forall>y \<in> set rs. y \<noteq> x \<longrightarrow> num_of (snd y col) < num_of (snd x col)"
  shows "hd (sort_desc col rs) = x"
proof -
  let ?k = "\<lambda>(l, r). num_of (r col)"
  let ?ys = "sort_key ?k (rev rs)"
  have ne: "?ys \<noteq> []" using assms(1) by (metis empty_iff empty_set set_rev set_sort)
  have hd: "hd (sort_desc col rs) = last ?ys" using ne by (simp add: sort_desc_def hd_rev)
  have mem: "last ?ys \<in> set rs" using ne last_in_set[of ?ys] by simp
  have "sorted (map ?k ?ys)" by (rule sorted_sort_key)
  moreover have "?k x \<in> set (map ?k ?ys)" using assms(1) by auto
  ultimately have "?k x \<le> last (map ?k ?ys)" by (rule sorted_le_last)
  then have le: "?k x \<le> ?k (last ?ys)" using ne by (simp add: last_map)
  have "last ?ys = x"
  proof (rule ccontr)
    assume "last ?ys \<noteq> x"
    then have "num_of (snd (last ?ys) col) < num_of (snd x col)" using assms(2) mem by blast
    then show False using le by (simp add: split_beta)
  qed
  then show ?thesis using hd by simp
qed

lemma split_outputs_train:
  "fst (split_outputs fs g df te) ''./data/train.csv'' = fs ''./data/train.csv''"
  by (simp add: split_outputs_def Let_def split_beta split: sum.splits)

lemma with_id_simps:
  "columns (with_id df0) = (if ''id'' \<in> set (columns df0) then columns df0 else columns df0 @ [''id''])"
  "dtypes (with_id df0) = (dtypes df0)(''id'' := Int64)"
  "index (with_id df0) = index df0"
  "len (with_id df0) = len df0"
  "rows (with_id df0) = map (\<lambda>(l, r). (l, r(''id'' := IntV (int l)))) (rows df0)"
  by (simp_all add: with_id_def columns_add_id index_add_column len_add_column rows_add_column_label)
     (simp add: add_column_def)

lemma splitter_Inr_form:
  assumes "splitter fs g df0 = (fs', Inr (tr, te, g'))"
  shows "\<exists>labels. tr = train_frame (with_id df0) labels"
    and "''highUptake_mol'' \<in> set (columns df0)"
    and "dtypes df0 ''highUptake_mol'' \<noteq> Object"
proof -
  obtain labels g1 where h: "held_out_indices g (with_id df0) = Inr (labels, g1)"
    using assms by (auto simp: splitter_def with_id_def Let_def split: sum.splits prod.splits)
  obtain df_test where l: "loc (with_id df0) labels = Inr df_test"
    using assms h by (auto simp: splitter_def with_id_def Let_def split: sum.splits prod.splits)
  obtain fs1 g2 where so: "split_outputs fs g1 (with_id df0) df_test = (fs1, Inr g2)"
    using assms h l by (auto simp: splitter_def with_id_def Let_def split: sum.splits prod.splits)
  obtain df_train where d: "drop_index labels (with_id df0) = Inr df_train"
    using assms h l so by (auto simp: splitter_def with_id_def Let_def split: sum.splits prod.splits)
  have "tr = df_train"
    using assms h l so d by (auto simp: splitter_def with_id_def Let_def split: if_splits)
  moreover have "df_train = train_frame (with_id df0) labels"
    using d by (auto simp: drop_index_def train_frame_def split: if_splits)
  ultimately show "\<exists>labels. tr = train_frame (with_id df0) labels" by blast
  have "''highUptake_mol'' \<in> set (columns (with_id df0))" "dtypes (with_id df0) ''highUptake_mol'' \<noteq> Object"
    using held_out_indices_Inr[OF h] by simp_all
  then show "''highUptake_mol'' \<in> set (columns df0)" "dtypes df0 ''highUptake_mol'' \<noteq> Object"
    by (auto simp: with_id_simps split: if_splits)
qed

lemma splitter_fs_train:
  assumes "splitter fs g df0 = (fs', r)"
  shows "fs' ''./data/train.csv'' = fs ''./data/train.csv''"
proof -
  have "fs' = fs \<or> (\<exists>g1 df te. fs' = fst (split_outputs fs g1 df te))"
    using assms
    by (auto simp: splitter_def Let_def split: sum.splits prod.splits if_splits) (metis fst_conv)+
  then show ?thesis using split_outputs_train by auto
qed

lemma pipeline_train_written:
  assumes "fst (pipeline h g t) ''./data/train.csv'' = Some f"
  shows "\<exists>df0 labels g1 g2 df_nan.
           clean (read_csv t) = Inr df0
         \<and> corruptor h g1 (train_frame (with_id df0) labels) = Inr (df_nan, g2)
         \<and> f = to_csv df_nan \<and> snd (pipeline h g t) = None"
proof -
  obtain df0 where cl: "clean (read_csv t) = Inr df0"
    using assms by (cases "clean (read_csv t)") (auto simp: pipeline_def)
  obtain fs1 r where sp: "splitter Map.empty g df0 = (fs1, r)" by (cases "splitter Map.empty g df0")
  have fs1: "fs1 ''./data/train.csv'' = None" using splitter_fs_train[OF sp] by simp
  obtain tr te g1 where r: "r = Inr (tr, te, g1)"
    using assms cl sp fs1 by (cases r) (auto simp: pipeline_def)
  obtain df_nan g2 where co: "corruptor h g1 tr = Inr (df_nan, g2)"
    using assms cl sp fs1 r by (cases "corruptor h g1 tr") (auto simp: pipeline_def)
  have f: "f = to_csv df_nan" "snd (pipeline h g t) = None"
    using assms cl sp r co by (auto simp: pipeline_def)
  obtain labels where "tr = train_frame (with_id df0) labels"
    using splitter_Inr_form(1)[OF sp[unfolded r]] by blast
  then show ?thesis using cl co f by blast
qed

lemma position_of_nth: "c \<in> set cs \<Longrightarrow> map r cs ! position_of c cs = r c"
  by (induction cs) auto

lemma csv_column_to_csv: "c \<in> set (columns df) \<Longrightarrow> csv_column c (to_csv df) = column c df"
  by (simp add: csv_column_def to_csv_def column_def position_of_nth split_beta)

lemma column_nth: "column c df = map (\<lambda>p. cell_at df p c) [0..<len df]"
  by (rule nth_equalityI) (simp_all add: column_def cell_at_def len_def split_beta)

lemma index_nth: "index df = map (label_at df) [0..<len df]"
  by (rule nth_equalityI) (simp_all add: index_def label_at_def len_def)

lemma corruptor_frame:
  assumes "corruptor h g df = Inr (df', g')"
  shows "columns df' = columns df" "dtypes df' = dtypes df" "index df' = index df" "len df' = len df"
    and "\<exists>sel. rand_choice g (index df) (len df div 8) = Inr (sel, drop (len df div 8) g)
           \<and> length sel = len df div 8 \<and> set sel \<subseteq> set (index df)
           \<and> (distinct (index df) \<longrightarrow> distinct sel)
           \<and> (\<forall>p c. p < len df \<longrightarrow>
                  (cell_at df' p c \<noteq> cell_at df p c \<longrightarrow>
                     cell_at df' p c = NaN \<and> label_at df p \<in> set sel
                     \<and> c \<in> set (columns df) \<and> dtypes df c = Float64)
                \<and> (label_at df p \<in> set sel \<longrightarrow>
                     (\<exists>c \<in> set (columns df). dtypes df c = Float64 \<and> cell_at df' p c = NaN)))"
proof -
  obtain sel where s: "rand_choice g (index df) (len df div 8) = Inr (sel, drop (len df div 8) g)"
    "corrupt_rows (float64_columns h df) (drop (len df div 8) g) df sel = Inr (df', g')"
    "length sel = len df div 8" "set sel \<subseteq> set (index df)" "distinct (index df) \<longrightarrow> distinct sel"
    using corruptor_cases[OF assms] by blast
  note fr = corrupt_rows_frame[OF s(2)]
  show "columns df' = columns df" "dtypes df' = dtypes df" "index df' = index df" "len df' = len df"
    using fr by simp_all
  have a: "cell_at df' p c = NaN \<and> label_at df p \<in> set sel \<and> c \<in> set (columns df) \<and> dtypes df c = Float64"
    if "p < len df" "cell_at df' p c \<noteq> cell_at df p c" for p c
    using fr that set_float64_columns[of h df] by blast
  have b: "\<exists>c \<in> set (columns df). dtypes df c = Float64 \<and> cell_at df' p c = NaN"
    if "p < len df" "label_at df p \<in> set sel" for p
    using corrupt_rows_marks[OF s(2) that] set_float64_columns[of h df] by blast
  show "\<exists>sel. rand_choice g (index df) (len df div 8) = Inr (sel, drop (len df div 8) g)
           \<and> length sel = len df div 8 \<and> set sel \<subseteq> set (index df)
           \<and> (distinct (index df) \<longrightarrow> distinct sel)
           \<and> (\<forall>p c. p < len df \<longrightarrow>
                  (cell_at df' p c \<noteq> cell_at df p c \<longrightarrow>
                     cell_at df' p c = NaN \<and> label_at df p \<in> set sel
                     \<and> c \<in> set (columns df) \<and> dtypes df c = Float64)
                \<and> (label_at df p \<in> set sel \<longrightarrow>
                     (\<exists>c \<in> set (columns df). dtypes df c = Float64 \<and> cell_at df' p c = NaN)))"
    apply (rule exI[of _ sel])
    using s(1,3,4,5) a b by blast
qed

lemma corruptor_column_kept:
  assumes "corruptor h g df = Inr (df', g')" "dtypes df c \<noteq> Float64"
  shows "column c df' = column c df"
proof -
  have "cell_at df' p c = cell_at df p c" if "p < len df" for p
    using corruptor_frame(5)[OF assms(1)] that assms(2) by blast
  then show ?thesis
    unfolding column_nth corruptor_frame(4)[OF assms(1)] by simp
qed

section \<open>A concrete run\<close>

lemma zip_upt_map: "zip [0..<n] (map f [0..<n]) = map (\<lambda>j. (j, f j)) [0..<n]"
  by (rule nth_equalityI) simp_all

lemma example_rows:
  "rows (add_column ''id'' Int64 (\<lambda>l p. IntV (int l)) (example_frame v n)) = map (example_labelled v) [0..<n]"
  by (simp add: rows_add_column_label example_frame_def zip_upt_map example_labelled_def comp_def)

lemma example_sorted: "sort_desc ''highUptake_mol'' (map (example_labelled v) [m..<n]) = map (example_labelled v) [m..<n]"
proof -
  let ?k = "\<lambda>(l, r). num_of (r ''highUptake_mol'')"
  have k: "?k (example_labelled v j) = Some (- real j)" for j
    by (simp add: example_labelled_def example_row_def)
  have "sorted_wrt (\<lambda>x y. ?k (example_labelled v x) \<ge> ?k (example_labelled v y)) [m..<n]"
    by (rule sorted_wrt_mono_rel[of _ "(<)"]) (auto simp: k)
  then have "sorted (map ?k (rev (map (example_labelled v) [m..<n])))"
    by (simp add: rev_map[symmetric] sorted_wrt_rev sorted_wrt_map comp_def del: rev_map)
  then have "sort_key ?k (rev (map (example_labelled v) [m..<n])) = rev (map (example_labelled v) [m..<n])"
    by (rule sort_key_id_if_sorted)
  then show ?thesis by (simp add: sort_desc_def)
qed

lemma example_difference:
  assumes "10 \<le> n"
  shows "index_difference [0..<n] [0, 5, 6, 7, 8, 9] = [1, 2, 3, 4] @ [10..<n]"
proof -
  have split: "[0..<n] = [0..<10] @ [10..<n]"
    using assms upt_add_eq_append[of 0 10 "n - 10"] by simp
  have a: "filter (\<lambda>i. i \<notin> set [0, 5, 6, 7, 8, 9]) [0..<10] = [1, 2, 3, 4::nat]"
    by code_simp
  have b: "filter (\<lambda>i. i \<notin> set [0, 5, 6, 7, 8, 9]) [10..<n] = [10..<n]"
    by (rule filter_True) auto
  have f: "filter (\<lambda>i. i \<notin> set [0, 5, 6, 7, 8, 9]) [0..<n] = [1, 2, 3, 4] @ [10..<n]"
    unfolding split filter_append a b ..
  have d: "distinct ([1, 2, 3, 4] @ [10..<n])" by auto
  have s: "sorted ([1, 2, 3, 4] @ [10..<n])" by (auto simp: sorted_append)
  have r: "remdups ([1, 2, 3, 4] @ [10..<n]) = [1, 2, 3, 4] @ [10..<n]"
    using d by (rule distinct_remdups_id)
  have "sort ([1, 2, 3, 4] @ [10..<n]) = [1, 2, 3, 4] @ [10..<n]"
    using s by (rule sorted_sort_id)
  then show ?thesis
    unfolding index_difference_def f r .
qed


lemma example_rows':
  "rows (with_id (example_frame v n)) = map (example_labelled v) [0..<n]"
  by (simp add: with_id_def example_rows)

lemma example_index: "index (with_id (example_frame v n)) = [0..<n]"
  by (simp add: index_def example_rows' example_labelled_def comp_def map_idI del: upt_Suc)

lemma example_held_out_of:
  assumes "100 \<le> n"
  shows "held_out_of (replicate 99 0 @ g) (with_id (example_frame v n)) = example_combined"
proof -
  let ?df = "with_id (example_frame v n)"
  have tape: "replicate 99 0 @ g = replicate 5 (0::nat) @ replicate 94 0 @ g"
    by (simp add: replicate_add[symmetric])
  have srt: "sort_desc ''highUptake_mol'' (rows ?df) = map (example_labelled v) [0..<n]"
    by (simp add: example_rows' example_sorted)
  have hd: "fst (hd (map (example_labelled v) [0..<n])) = 0"
    using assms by (simp add: upt_conv_Cons example_labelled_def)
  have pool: "drop 5 (take 15 (map (example_labelled v) [0..<n])) = map (example_labelled v) [5..<15]"
    using assms by (simp add: take_map drop_map del: upt_Suc)
  have great: "pick (replicate 5 0 @ replicate 94 0 @ g) (map (example_labelled v) [5..<15]) 5
                 = (map (example_labelled v) [5..<10], replicate 94 0 @ g)"
    using pick_zeros[of 5 "map (example_labelled v) [5..<15]" "replicate 94 0 @ g"]
    by (simp add: take_map del: upt_Suc)
  have u: "[1..<5] = [1, 2, 3, 4::nat]" "[5..<10] = [5, 6, 7, 8, 9::nat]"
    by code_simp+
  have gl: "map fst (map (example_labelled v) [5..<10]) = [5, 6, 7, 8, 9]"
    unfolding u(2) by (simp add: example_labelled_def)
  have dr: "drop 5 (replicate 5 (0::nat) @ replicate 94 0 @ g) = replicate 94 0 @ g" by simp
  have add: "pick (replicate 94 0 @ g) ([1, 2, 3, 4] @ [10..<n]) 94 = ([1, 2, 3, 4] @ [10..<100], g)"
    using pick_zeros[of 94 "[1, 2, 3, 4] @ [10..<n]" g] assms
    by (simp del: upt_Suc)
  have diff: "index_difference [0..<n] [0, 5, 6, 7, 8, 9] = [1, 2, 3, 4] @ [10..<n]"
    using assms by (intro example_difference) simp
  have comb: "[0, 5, 6, 7, 8, 9] @ [1, 2, 3, 4] @ [10..<100] = example_combined"
    unfolding example_combined_def u by simp
  show ?thesis
    unfolding held_out_of_def Let_def srt pool tape great fst_conv hd gl example_index dr diff add
    using comb by simp
qed

lemma set_example_combined: "set example_combined = {0..<100}"
proof -
  have "set example_combined = {0} \<union> {5..<10} \<union> {1..<5} \<union> {10..<100}"
    unfolding example_combined_def by (simp only: list.set set_append set_upt) auto
  then show ?thesis by auto
qed

lemma example_train_frame:
  assumes "100 \<le> n"
  shows "train_frame (with_id (example_frame v n)) example_combined = example_train v n"
proof -
  have split: "[0..<n] = [0..<100] @ [100..<n]"
    using assms upt_add_eq_append[of 0 100 "n - 100"] by simp
  have a: "filter (\<lambda>l. l \<notin> {0..<100}) [0..<100] = []" by (rule filter_False) auto
  have b: "filter (\<lambda>l. l \<notin> {0..<100}) [100..<n] = [100..<n]" by (rule filter_True) auto
  have f: "filter (\<lambda>(l, r). l \<notin> {0..<100}) (map (example_labelled v) [0..<n])
             = map (example_labelled v) (filter (\<lambda>l. l \<notin> {0..<100}) [0..<n])"
    by (simp add: filter_map comp_def example_labelled_def)
  have g: "filter (\<lambda>l. l \<notin> {0..<100}) [0..<n] = [100..<n]"
    unfolding split filter_append a b by simp
  have r: "filter (\<lambda>(l, r). l \<notin> {0..<100}) (map (example_labelled v) [0..<n]) = map (example_labelled v) [100..<n]"
    unfolding f g ..
  show ?thesis
    unfolding train_frame_def example_rows' set_example_combined r
    by (simp add: with_id_def add_column_def example_frame_def example_train_def)
qed

lemma fold_min_in: "fold min xs (x::real) \<in> set (x # xs)"
  by (induction xs arbitrary: x) (auto simp: min_def)

lemma fold_max_in: "fold max xs (x::real) \<in> set (x # xs)"
  by (induction xs arbitrary: x) (auto simp: max_def)

lemma col_range_bounded:
  assumes ne: "col_values col df \<noteq> []"
    and b: "\<forall>x \<in> set (col_values col df). lo \<le> x \<and> x \<le> hi"
    and r: "hi - lo < 2 ^ 1024 - 2 ^ 970"
  shows "\<not> range_overflows (col_min col df) (col_max col df)"
proof -
  obtain x xs where c: "col_values col df = x # xs" using ne by (cases "col_values col df") auto
  have m: "col_min col df = Some (fold min xs x)" "col_max col df = Some (fold max xs x)"
    by (simp_all add: col_min_def col_max_def c)
  have "lo \<le> fold min xs x" "fold min xs x \<le> hi" "lo \<le> fold max xs x" "fold max xs x \<le> hi"
    using b fold_min_in[of xs x] fold_max_in[of xs x] unfolding c by blast+
  then have "\<bar>fold max xs x - fold min xs x\<bar> \<le> hi - lo" by linarith
  then show ?thesis using r by (simp add: range_overflows_def m)
qed

lemma example_col_values:
  "col_values ''highUptake_mol'' (example_frame v n) = map (\<lambda>j. - real j) [0..<n]"
proof -
  have h: "map (\<lambda>(l, r). case num_of (r ''highUptake_mol'') of None \<Rightarrow> [] | Some x \<Rightarrow> [x])
          (map (\<lambda>j. (j, example_row v j)) [0..<n]) = map (\<lambda>j. [- real j]) [0..<n]"
    by (simp add: example_row_def)
  show ?thesis
    unfolding col_values_def example_frame_def frame.simps zip_upt_map h
    by (rule concat_map_singleton)
qed

lemma example_range:
  assumes "0 < n" "n < 2 ^ 1000"
  shows "\<not> range_overflows (col_min ''highUptake_mol'' (example_frame v n))
           (col_max ''highUptake_mol'' (example_frame v n))"
proof (rule col_range_bounded[of _ _ "- real n" 0])
  show "col_values ''highUptake_mol'' (example_frame v n) \<noteq> []"
    using assms(1) by (simp add: example_col_values)
  show "\<forall>x \<in> set (col_values ''highUptake_mol'' (example_frame v n)). - real n \<le> x \<and> x \<le> 0"
    by (auto simp: example_col_values)
  have "real n < 2 ^ 1000" using assms(2) by (metis of_nat_less_iff of_nat_numeral of_nat_power)
  moreover have "(2::real) ^ 1000 \<le> 2 ^ 1024 - 2 ^ 970" by simp
  ultimately show "0 - - real n < 2 ^ 1024 - 2 ^ 970" by simp
qed

lemma example_pipeline:
  assumes "100 \<le> n" "n < 2 ^ 1000"
    and "fs3 = fst (split_outputs Map.empty (replicate 100 0 @ g) (with_id (example_frame v n))
                      (test_frame (with_id (example_frame v n)) example_combined))"
  shows "pipeline h (replicate 199 0 @ g) (example_table v n) =
           (case corruptor h g (example_train v n) of
              Inl e \<Rightarrow> (fs3, Some e)
            | Inr (df_nan, g1) \<Rightarrow> (fs3(''./data/train.csv'' \<mapsto> to_csv df_nan), None))"
proof -
  have t: "replicate 199 0 @ g = replicate 99 (0::nat) @ replicate 100 0 @ g"
    by (simp add: replicate_add[symmetric])
  have a: "100 \<le> length (t_rows (example_table v n))" using assms by (simp add: example_table_def)
  have b: "''highUptake_mol'' \<in> set (columns (example_frame v n))" by (simp add: example_frame_def)
  have c: "dtypes (example_frame v n) ''highUptake_mol'' \<noteq> Object"
    by (simp add: example_frame_def example_dtypes_def)
  have ho: "held_out_of (replicate 199 0 @ g) (with_id (example_frame v n)) = example_combined"
    unfolding t using assms(1) by (rule example_held_out_of)
  have d: "drop 99 (replicate 199 0 @ g) = replicate 100 0 @ g" "drop 199 (replicate 199 0 @ g) = g"
    unfolding t by simp_all
  have e: "\<not> range_overflows (col_min ''highUptake_mol'' (example_frame v n))
             (col_max ''highUptake_mol'' (example_frame v n))"
    using assms(1,2) by (intro example_range) simp_all
  show ?thesis
    using pipeline_split[OF clean_example a b c e refl, of h "replicate 199 0 @ g"]
    unfolding ho d example_train_frame[OF assms(1)] assms(3) .
qed

lemma example_float64_a:
  "float64_columns hash_a_first (example_train v n) = [''a'', ''highUptake_mol'']"
  by (simp add: float64_columns_def set_to_list_def select_dtypes_exclude_def example_train_def
      example_dtypes_def hash_a_first_def)

lemma example_float64_t:
  "float64_columns hash_target_first (example_train v n) = [''highUptake_mol'', ''a'']"
  by (simp add: float64_columns_def set_to_list_def select_dtypes_exclude_def example_train_def
      example_dtypes_def hash_target_first_def)

lemma example_train_108:
  "index (example_train v 108) = [100, 101, 102, 103, 104, 105, 106, 107]"
  "len (example_train v 108) = 8"
  "columns (example_train v 108) = [''a'', ''n'', ''highUptake_mol'', ''id'']"
  by (simp_all add: example_train_def index_def len_def example_labelled_def upt_rec_numeral)

lemma example_corruptor_a:
  "corruptor hash_a_first [] (example_train v 108) = Inr (set_nan 100 [''a''] (example_train v 108), [])"
  by (simp add: corruptor_def example_train_108 example_float64_a rand_choice_def num_nans_empty
      set_nan_simps)

lemma example_corruptor_t:
  "corruptor hash_target_first [] (example_train v 108)
     = Inr (set_nan 100 [''highUptake_mol''] (example_train v 108), [])"
  by (simp add: corruptor_def example_train_108 example_float64_t rand_choice_def num_nans_empty
      set_nan_simps)

lemma example_num_nans: "num_nans [9, 9, 9, 0] (example_train v 108) = (4, [])"
proof -
  have n: "length (columns (example_train v 108)) = Suc (Suc (Suc (Suc 0)))"
    by (simp add: example_train_108)
  show ?thesis unfolding num_nans_def n by simp
qed

lemma example_corruptor_oversized:
  "corruptor hash_a_first [0, 9, 9, 9, 0] (example_train v 108) = Inl ValueError"
  by (simp add: corruptor_def example_train_108 example_float64_a rand_choice_def example_num_nans)

lemma example_csv_a:
  "to_csv (set_nan 100 [''a''] (example_train v 108))
     = ([''a'', ''n'', ''highUptake_mol'', ''id''],
        [[NaN, IntV 0, FloatV (- 100), IntV 100],
         [v, IntV 0, FloatV (- 101), IntV 101],
         [v, IntV 0, FloatV (- 102), IntV 102],
         [v, IntV 0, FloatV (- 103), IntV 103],
         [v, IntV 0, FloatV (- 104), IntV 104],
         [v, IntV 0, FloatV (- 105), IntV 105],
         [v, IntV 0, FloatV (- 106), IntV 106],
         [v, IntV 0, FloatV (- 107), IntV 107]])"
  by (simp add: to_csv_def set_nan_def example_train_def example_labelled_def example_row_def
      upt_rec_numeral)

lemma example_csv_t:
  "to_csv (set_nan 100 [''highUptake_mol''] (example_train v 108))
     = ([''a'', ''n'', ''highUptake_mol'', ''id''],
        [[v, IntV 0, NaN, IntV 100],
         [v, IntV 0, FloatV (- 101), IntV 101],
         [v, IntV 0, FloatV (- 102), IntV 102],
         [v, IntV 0, FloatV (- 103), IntV 103],
         [v, IntV 0, FloatV (- 104), IntV 104],
         [v, IntV 0, FloatV (- 105), IntV 105],
         [v, IntV 0, FloatV (- 106), IntV 106],
         [v, IntV 0, FloatV (- 107), IntV 107]])"
  by (simp add: to_csv_def set_nan_def example_train_def example_labelled_def example_row_def
      upt_rec_numeral)

section \<open>Runs of the example and further facts\<close>

lemma held_out_indices_target:
  assumes "''highUptake_mol'' \<notin> set (columns df0) \<or> dtypes df0 ''highUptake_mol'' = Object"
  shows "held_out_indices g (with_id df0)
           = Inl (if ''highUptake_mol'' \<notin> set (columns df0) then KeyError else TypeError)"
  using assms
  by (auto simp: held_out_indices_def nlargest_def with_id_simps)

lemma splitter_target:
  assumes "''highUptake_mol'' \<notin> set (columns df0) \<or> dtypes df0 ''highUptake_mol'' = Object"
  shows "splitter fs g df0
           = (fs, Inl (if ''highUptake_mol'' \<notin> set (columns df0) then KeyError else TypeError))"
  unfolding splitter_def Let_def with_id_def[symmetric] held_out_indices_target[OF assms]
  by simp

lemma example_splitter:
  assumes "100 \<le> n" "n < 2 ^ 1000"
  shows "splitter Map.empty (replicate 199 0 @ g) (example_frame v n)
           = (example_files v n g, Inr (example_train v n, example_test v n, g))"
proof -
  have t: "replicate 199 0 @ g = replicate 99 (0::nat) @ replicate 100 0 @ g"
    by (simp add: replicate_add[symmetric])
  have i: "distinct (index (example_frame v n))" "100 \<le> len (example_frame v n)"
    using assms clean_index[OF clean_example, of v n] by (simp_all add: example_table_def)
  have b: "''highUptake_mol'' \<in> set (columns (example_frame v n))" by (simp add: example_frame_def)
  have c: "dtypes (example_frame v n) ''highUptake_mol'' \<noteq> Object"
    by (simp add: example_frame_def example_dtypes_def)
  have ho: "held_out_of (replicate 199 0 @ g) (with_id (example_frame v n)) = example_combined"
    unfolding t using assms(1) by (rule example_held_out_of)
  have d: "drop 99 (replicate 199 0 @ g) = replicate 100 0 @ g" "drop 199 (replicate 199 0 @ g) = g"
    unfolding t by simp_all
  have e: "\<not> range_overflows (col_min ''highUptake_mol'' (example_frame v n))
             (col_max ''highUptake_mol'' (example_frame v n))"
    using assms by (intro example_range) simp_all
  show ?thesis
    using splitter_ok[OF i b c e, of Map.empty "replicate 199 0 @ g"]
    unfolding ho d example_train_frame[OF assms(1)] example_files_def example_test_def .
qed

lemma example_splitter_108:
  "splitter Map.empty (replicate 199 0) (example_frame v 108)
     = (example_files v 108 [], Inr (example_train v 108, example_test v 108, []))"
  using example_splitter[of 108 "[]" v] by simp

lemma example_pipeline_108:
  "pipeline h (replicate 199 0 @ g) (example_table v 108) =
     (case corruptor h g (example_train v 108) of
        Inl e \<Rightarrow> (example_files v 108 g, Some e)
      | Inr (df_nan, g1) \<Rightarrow> ((example_files v 108 g)(''./data/train.csv'' \<mapsto> to_csv df_nan), None))"
  by (rule example_pipeline) (simp_all add: example_files_def example_test_def)

lemma example_run_a:
  "pipeline hash_a_first (replicate 199 0) (example_table v 108)
     = ((example_files v 108 [])(''./data/train.csv'' \<mapsto> to_csv (set_nan 100 [''a''] (example_train v 108))), None)"
  using example_pipeline_108[of hash_a_first "[]" v] by (simp add: example_corruptor_a)

lemma example_run_t:
  "pipeline hash_target_first (replicate 199 0) (example_table v 108)
     = ((example_files v 108 [])(''./data/train.csv'' \<mapsto> to_csv (set_nan 100 [''highUptake_mol''] (example_train v 108))), None)"
  using example_pipeline_108[of hash_target_first "[]" v] by (simp add: example_corruptor_t)

lemma train_frame_simps:
  "columns (train_frame df labels) = columns df"
  "dtypes (train_frame df labels) = dtypes df"
  by (simp_all add: train_frame_def)

lemma example_cells:
  "cell_at (example_train v 108) 0 ''highUptake_mol'' = FloatV (- 100)"
  "cell_at (set_nan 100 [''highUptake_mol''] (example_train v 108)) 0 ''highUptake_mol'' = NaN"
  by (simp_all add: cell_at_def set_nan_def example_train_def example_labelled_def example_row_def
      upt_rec_numeral)

lemma example_num_nans_one: "num_nans (0 # 0 # 0 # 0 # g) (example_train v 108) = (1, g)"
proof -
  have n: "length (columns (example_train v 108)) = Suc (Suc (Suc (Suc 0)))"
    by (simp add: example_train_108)
  show ?thesis unfolding num_nans_def n by simp
qed

lemma example_corruptor_pick_target:
  "corruptor hash_a_first [0, 0, 0, 0, 0, 1] (example_train v 108)
     = Inr (set_nan 100 [''highUptake_mol''] (example_train v 108), [])"
  by (simp add: corruptor_def example_train_108 example_float64_a rand_choice_def
      example_num_nans_one set_nan_simps)

lemma example_train_csv_a:
  "fst (pipeline hash_a_first (replicate 199 0) (example_table v 108)) ''./data/train.csv''
     = Some ([''a'', ''n'', ''highUptake_mol'', ''id''],
        [[NaN, IntV 0, FloatV (- 100), IntV 100],
         [v, IntV 0, FloatV (- 101), IntV 101],
         [v, IntV 0, FloatV (- 102), IntV 102],
         [v, IntV 0, FloatV (- 103), IntV 103],
         [v, IntV 0, FloatV (- 104), IntV 104],
         [v, IntV 0, FloatV (- 105), IntV 105],
         [v, IntV 0, FloatV (- 106), IntV 106],
         [v, IntV 0, FloatV (- 107), IntV 107]])"
  by (simp add: example_run_a example_csv_a)

lemma example_train_csv_t:
  "fst (pipeline hash_target_first (replicate 199 0) (example_table v 108)) ''./data/train.csv''
     = Some ([''a'', ''n'', ''highUptake_mol'', ''id''],
        [[v, IntV 0, NaN, IntV 100],
         [v, IntV 0, FloatV (- 101), IntV 101],
         [v, IntV 0, FloatV (- 102), IntV 102],
         [v, IntV 0, FloatV (- 103), IntV 103],
         [v, IntV 0, FloatV (- 104), IntV 104],
         [v, IntV 0, FloatV (- 105), IntV 105],
         [v, IntV 0, FloatV (- 106), IntV 106],
         [v, IntV 0, FloatV (- 107), IntV 107]])"
  by (simp add: example_run_t example_csv_t)

lemma rand_binomial_cons:
  "fst (rand_binomial (r # t) (Suc n) p)
     = (if snd p - fst p \<le> r mod snd p then 1 else 0) + fst (rand_binomial t n p)"
  by (simp add: split_beta Let_def)

lemma rand_binomial_count:
  assumes p: "pn \<le> pd"
  shows "card {tape. length tape = n \<and> set tape \<subseteq> {0..<pd}
                \<and> fst (rand_binomial (tape @ rest) n (pn, pd)) = j}
           = (n choose j) * pn ^ j * (pd - pn) ^ (n - j)"
proof (induction n arbitrary: j)
  case 0
  have "{tape. length tape = 0 \<and> set tape \<subseteq> {0..<pd}
           \<and> fst (rand_binomial (tape @ rest) 0 (pn, pd)) = j} = (if j = 0 then {[]} else {})"
    by auto
  then show ?case by (cases j) simp_all
next
  case (Suc n)
  let ?T = "\<lambda>n j. {tape. length tape = n \<and> set tape \<subseteq> {0..<pd}
                \<and> fst (rand_binomial (tape @ rest) n (pn, pd)) = j}"
  let ?f = "\<lambda>r. if pd - pn \<le> r then 1 else (0::nat)"
  let ?A = "\<lambda>r. if ?f r \<le> j then (#) r ` ?T n (j - ?f r) else {}"
  have fin: "finite (?T n i)" for i
    by (rule finite_subset[OF _ finite_lists_length_eq[of "{0..<pd}" n]]) auto
  have un: "?T (Suc n) j = (\<Union>r\<in>{0..<pd}. ?A r)"
  proof (intro set_eqI iffI)
    fix tape assume "tape \<in> ?T (Suc n) j"
    then obtain r t where t: "tape = r # t" "length t = n" "r < pd" "set t \<subseteq> {0..<pd}"
      "fst (rand_binomial (r # t @ rest) (Suc n) (pn, pd)) = j"
      by (auto simp: length_Suc_conv)
    have "?f r + fst (rand_binomial (t @ rest) n (pn, pd)) = j"
      using t(5) t(3) unfolding rand_binomial_cons by simp
    then have "?f r \<le> j" "t \<in> ?T n (j - ?f r)" using t(2,4) by auto
    then have a: "tape \<in> ?A r" using t(1) by auto
    have m: "r \<in> {0..<pd}" using t(3) by simp
    show "tape \<in> (\<Union>r\<in>{0..<pd}. ?A r)" using m a by (rule UN_I)
  next
    fix tape assume "tape \<in> (\<Union>r\<in>{0..<pd}. ?A r)"
    then obtain r where r: "r < pd" "tape \<in> ?A r" by auto
    then have le: "?f r \<le> j" by (auto split: if_splits)
    then obtain t where t: "tape = r # t" "t \<in> ?T n (j - ?f r)" using r(2) by auto
    have "fst (rand_binomial (r # t @ rest) (Suc n) (pn, pd)) = ?f r + (j - ?f r)"
      unfolding rand_binomial_cons using t(2) r(1) by simp
    then show "tape \<in> ?T (Suc n) j" using t r(1) le by auto
  qed
  have disj: "\<forall>r\<in>{0..<pd}. \<forall>r'\<in>{0..<pd}. r \<noteq> r' \<longrightarrow> ?A r \<inter> ?A r' = {}"
    by auto
  have finA: "\<forall>r\<in>{0..<pd}. finite (?A r)" using fin by auto
  have cardA: "card (?A r) = (if ?f r \<le> j then card (?T n (j - ?f r)) else 0)" for r
    by (simp add: card_image)
  have "card (?T (Suc n) j) = (\<Sum>r\<in>{0..<pd}. card (?A r))"
    unfolding un by (rule card_UN_disjoint[OF _ finA disj]) simp
  also have "\<dots> = (\<Sum>r\<in>{0..<pd - pn}. card (?A r)) + (\<Sum>r\<in>{pd - pn..<pd}. card (?A r))"
    by (rule sum.atLeastLessThan_concat[symmetric]) simp_all
  also have "(\<Sum>r\<in>{0..<pd - pn}. card (?A r)) = (pd - pn) * card (?T n j)"
  proof -
    have "(\<Sum>r\<in>{0..<pd - pn}. card (?A r)) = (\<Sum>r\<in>{0..<pd - pn}. card (?T n j))"
      by (rule sum.cong) (simp_all add: card_image)
    then show ?thesis by simp
  qed
  also have "(\<Sum>r\<in>{pd - pn..<pd}. card (?A r)) = pn * (if 1 \<le> j then card (?T n (j - 1)) else 0)"
  proof -
    have "(\<Sum>r\<in>{pd - pn..<pd}. card (?A r))
            = (\<Sum>r\<in>{pd - pn..<pd}. (if 1 \<le> j then card (?T n (j - 1)) else 0))"
      by (rule sum.cong) (simp_all add: card_image)
    then show ?thesis using p by simp
  qed
  finally have c: "card (?T (Suc n) j)
      = (pd - pn) * card (?T n j) + pn * (if 1 \<le> j then card (?T n (j - 1)) else 0)" .
  show ?case
  proof (cases j)
    case 0
    then show ?thesis using c Suc.IH[of 0] by simp
  next
    case (Suc i)
    have ih1: "card (?T n (Suc i)) = (n choose Suc i) * pn ^ Suc i * (pd - pn) ^ (n - Suc i)"
      by (rule Suc.IH)
    have ih2: "card (?T n i) = (n choose i) * pn ^ i * (pd - pn) ^ (n - i)"
      by (rule Suc.IH)
    have e: "(pd - pn) * ((n choose Suc i) * pn ^ Suc i * (pd - pn) ^ (n - Suc i))
               = (n choose Suc i) * pn ^ Suc i * (pd - pn) ^ (n - i)"
    proof (cases "Suc i \<le> n")
      case True
      then have "n - i = Suc (n - Suc i)" by simp
      then show ?thesis by simp
    next
      case False
      then show ?thesis by (simp add: binomial_eq_0)
    qed
    have "card (?T (Suc n) (Suc i))
            = (pd - pn) * card (?T n (Suc i)) + pn * card (?T n i)"
      using c unfolding Suc by simp
    also have "\<dots> = (n choose Suc i) * pn ^ Suc i * (pd - pn) ^ (n - i)
                     + (n choose i) * pn ^ Suc i * (pd - pn) ^ (n - i)"
      unfolding ih1 ih2 e by simp
    also have "\<dots> = (Suc n choose Suc i) * pn ^ Suc i * (pd - pn) ^ (Suc n - Suc i)"
      by (simp add: algebra_simps)
    finally show ?thesis unfolding Suc .
  qed
qed

lemma num_nans_count:
  "card {tape. length tape = length (columns df) \<and> set tape \<subseteq> {0..<10}
          \<and> fst (num_nans (tape @ rest) df) = j + 1}
     = (length (columns df) choose j) * 9 ^ (length (columns df) - j)"
proof -
  have "{tape. length tape = length (columns df) \<and> set tape \<subseteq> {0..<10}
          \<and> fst (num_nans (tape @ rest) df) = j + 1}
      = {tape. length tape = length (columns df) \<and> set tape \<subseteq> {0..<10}
          \<and> fst (rand_binomial (tape @ rest) (length (columns df)) (1, 10)) = j}"
    by (simp add: num_nans_def split_beta)
  then show ?thesis
    using rand_binomial_count[of 1 10 "length (columns df)" rest j] by simp
qed

lemma zip_upt_nth: "zip [0..<length xs] xs = map (\<lambda>j. (j, xs ! j)) [0..<length xs]"
  by (rule nth_equalityI) simp_all

lemma rows_with_id_clean:
  assumes "clean (read_csv t) = Inr df0"
  shows "rows (with_id df0)
           = map (\<lambda>j. (j, (t_rows t ! j)(''id'' := IntV (int j)))) [0..<length (t_rows t)]"
  by (simp add: with_id_simps clean_props(1)[OF assms] zip_upt_nth comp_def)

lemma column_id_train:
  assumes "id_ok (rows df)"
  shows "column ''id'' (train_frame df combined)
           = map (\<lambda>l. IntV (int l)) (filter (\<lambda>l. l \<notin> set combined) (index df))"
proof -
  have "id_ok (rows (train_frame df combined))" using assms by (auto simp: id_ok_def train_frame_def)
  from id_ok_column[OF this] show ?thesis
    by (simp add: column_def filter_rows_index index_def train_frame_def)
qed

lemma id_ok_with_id: "id_ok (rows (with_id df0))"
  unfolding with_id_def by (rule id_ok_add_column)

lemma test_frame_row:
  assumes "distinct (index df)" "(l, r) \<in> set (rows df)" "l \<in> set combined"
  shows "(l, r) \<in> set (rows (test_frame df combined))"
proof -
  have "map_of (rows df) l = Some r"
    using assms(1,2) by (simp add: index_def)
  then show ?thesis using assms(3) by (force simp: test_frame_def)
qed

lemma test_frame_simps:
  "columns (test_frame df labels) = columns df"
  "dtypes (test_frame df labels) = dtypes df"
  by (simp_all add: test_frame_def)

lemma split_files:
  assumes "''highUptake_mol'' \<in> set (columns df)" "''id'' \<in> set (columns df)"
    and "fs3 = fst (split_outputs Map.empty g df (test_frame df combined))"
  shows "fs3 ''./data/test.csv''
           = Some (to_csv ((test_frame df combined)\<lparr>columns := filter (\<lambda>c. c \<notin> set [''highUptake_mol'']) (columns df)\<rparr>))"
    and "fs3 ''./data/solution.csv''
           = Some (to_csv (add_column ''Usage'' Object (\<lambda>l p. StrV ''Public'')
                    ((test_frame df combined)\<lparr>columns := [''id'', ''highUptake_mol'']\<rparr>)))"
    and "fs3 ''./data/train.csv'' = None"
    and "dom fs3 = (if range_overflows (col_min ''highUptake_mol'' df) (col_max ''highUptake_mol'' df)
                    then {''./data/solution.csv'', ''./data/test.csv''}
                    else {''./data/solution.csv'', ''./data/test.csv'', ''./data/sample_submission.csv''})"
proof -
  have c: "''id'' \<in> set (columns (test_frame df combined))"
    "''highUptake_mol'' \<in> set (columns (test_frame df combined))"
    using assms(1,2) by (simp_all add: test_frame_simps)
  let ?ovf = "range_overflows (col_min ''highUptake_mol'' df) (col_max ''highUptake_mol'' df)"
  let ?sol = "to_csv (add_column ''Usage'' Object (\<lambda>l p. StrV ''Public'')
                    ((test_frame df combined)\<lparr>columns := [''id'', ''highUptake_mol'']\<rparr>))"
  let ?test = "to_csv ((test_frame df combined)\<lparr>columns := filter (\<lambda>c. c \<notin> set [''highUptake_mol'']) (columns df)\<rparr>)"
  have "fs3 ''./data/test.csv'' = Some ?test \<and> fs3 ''./data/solution.csv'' = Some ?sol
      \<and> fs3 ''./data/train.csv'' = None
      \<and> dom fs3 = (if ?ovf then {''./data/solution.csv'', ''./data/test.csv''}
                    else {''./data/solution.csv'', ''./data/test.csv'', ''./data/sample_submission.csv''})"
  proof (cases ?ovf)
    case True
    have e: "fs3 = [''./data/solution.csv'' \<mapsto> ?sol, ''./data/test.csv'' \<mapsto> ?test]"
      unfolding assms(3) split_outputs_overflow[OF c True] by (simp add: test_frame_simps)
    have d: "dom fs3 = {''./data/solution.csv'', ''./data/test.csv''}"
      unfolding e by (simp add: insert_commute)
    show ?thesis unfolding d using True unfolding e by simp
  next
    case False
    obtain vals where e: "fs3 = [''./data/solution.csv'' \<mapsto> ?sol, ''./data/test.csv'' \<mapsto> ?test,
        ''./data/sample_submission.csv'' \<mapsto> to_csv (add_column ''highUptake_mol'' Float64
             (\<lambda>l p. vals ! p) ((test_frame df combined)\<lparr>columns := [''id'']\<rparr>))]"
      using split_outputs_eq[OF c False, of Map.empty g] unfolding assms(3)
      by (auto simp: test_frame_simps)
    have d: "dom fs3 = {''./data/solution.csv'', ''./data/test.csv'', ''./data/sample_submission.csv''}"
      unfolding e by (simp add: insert_commute)
    show ?thesis unfolding d using False unfolding e by simp
  qed
  then show "fs3 ''./data/test.csv'' = Some ?test"
    and "fs3 ''./data/solution.csv'' = Some ?sol"
    and "fs3 ''./data/train.csv'' = None"
    and "dom fs3 = (if ?ovf then {''./data/solution.csv'', ''./data/test.csv''}
                    else {''./data/solution.csv'', ''./data/test.csv'', ''./data/sample_submission.csv''})"
    by blast+
qed

lemma pipeline_split_general:
  assumes cl: "clean (read_csv t) = Inr df0"
    and n: "100 \<le> length (t_rows t)"
    and col: "''highUptake_mol'' \<in> set (columns df0)"
    and ty: "dtypes df0 ''highUptake_mol'' \<noteq> Object"
    and fs3: "fs3 = fst (split_outputs Map.empty (drop 99 g) (with_id df0)
                      (test_frame (with_id df0) (held_out_of g (with_id df0))))"
  shows "pipeline h g t =
           (if range_overflows (col_min ''highUptake_mol'' df0) (col_max ''highUptake_mol'' df0)
            then (fs3, Some OverflowError)
            else case corruptor h (drop 199 g) (train_frame (with_id df0) (held_out_of g (with_id df0))) of
                   Inl e \<Rightarrow> (fs3, Some e)
                 | Inr (df_nan, g1) \<Rightarrow> (fs3(''./data/train.csv'' \<mapsto> to_csv df_nan), None))"
  using pipeline_split[OF cl n col ty _ fs3, of h] pipeline_overflow[OF cl n col ty, where h = h and g = g] fs3
  by (cases "range_overflows (col_min ''highUptake_mol'' df0) (col_max ''highUptake_mol'' df0)") simp_all

lemma example_row_nth: "j < n \<Longrightarrow> t_rows (example_table v n) ! j = example_row v j"
  by (simp add: example_table_def)

lemma splitter_Inr_explicit:
  assumes s: "splitter fs g df0 = (fs', Inr (tr, te, g'))"
    and dist: "distinct (index df0)"
  shows "100 \<le> len df0"
    and "tr = train_frame (with_id df0) (held_out_of g (with_id df0))"
    and "te = test_frame (with_id df0) (held_out_of g (with_id df0))"
    and "g' = drop 199 g"
    and "\<not> range_overflows (col_min ''highUptake_mol'' df0) (col_max ''highUptake_mol'' df0)"
proof -
  obtain x where h: "held_out_indices g (with_id df0) = Inr x"
    using s by (auto simp: splitter_def with_id_def Let_def split: sum.splits prod.splits)
  have "100 \<le> len (with_id df0)"
    using held_out_indices_len[OF h] dist by (simp add: with_id_simps)
  then show n: "100 \<le> len df0" by (simp add: with_id_simps)
  note f = splitter_Inr_form(2,3)[OF s]
  note e = splitter_split[OF dist n f, of fs g]
  show "tr = train_frame (with_id df0) (held_out_of g (with_id df0))"
    and "te = test_frame (with_id df0) (held_out_of g (with_id df0))"
    and "g' = drop 199 g"
    and "\<not> range_overflows (col_min ''highUptake_mol'' df0) (col_max ''highUptake_mol'' df0)"
    using e s by (simp_all split: if_splits)
qed

lemma pipeline_train_written_explicit:
  assumes cl: "clean (read_csv t) = Inr df0"
    and w: "fst (pipeline h g t) ''./data/train.csv'' = Some f"
  shows "100 \<le> length (t_rows t)"
    and "\<exists>fs. splitter Map.empty g df0
           = (fs, Inr (train_frame (with_id df0) (held_out_of g (with_id df0)),
                       test_frame (with_id df0) (held_out_of g (with_id df0)), drop 199 g))"
    and "\<exists>df_nan g2. corruptor h (drop 199 g) (train_frame (with_id df0) (held_out_of g (with_id df0)))
                       = Inr (df_nan, g2) \<and> f = to_csv df_nan"
    and "''highUptake_mol'' \<in> set (columns df0)"
    and "dtypes df0 ''highUptake_mol'' \<noteq> Object"
proof -
  obtain fs1 r where sp: "splitter Map.empty g df0 = (fs1, r)" by (cases "splitter Map.empty g df0")
  have fs1: "fs1 ''./data/train.csv'' = None" using splitter_fs_train[OF sp] by simp
  obtain tr te g1 where r: "r = Inr (tr, te, g1)"
    using w cl sp fs1 by (cases r) (auto simp: pipeline_def)
  obtain df_nan g2 where co: "corruptor h g1 tr = Inr (df_nan, g2)"
    using w cl sp fs1 r by (cases "corruptor h g1 tr") (auto simp: pipeline_def)
  have f: "f = to_csv df_nan"
    using w cl sp r co by (auto simp: pipeline_def)
  have dist: "distinct (index df0)" using clean_index(1)[OF cl] by simp
  note e = splitter_Inr_explicit[OF sp[unfolded r] dist]
  show "100 \<le> length (t_rows t)" using e(1) clean_index(2)[OF cl] by simp
  show "\<exists>fs. splitter Map.empty g df0
           = (fs, Inr (train_frame (with_id df0) (held_out_of g (with_id df0)),
                       test_frame (with_id df0) (held_out_of g (with_id df0)), drop 199 g))"
    using sp r e(2,3,4) by simp
  show "\<exists>df_nan g2. corruptor h (drop 199 g) (train_frame (with_id df0) (held_out_of g (with_id df0)))
                       = Inr (df_nan, g2) \<and> f = to_csv df_nan"
    using co f e(2,4) by auto
  show "''highUptake_mol'' \<in> set (columns df0)" "dtypes df0 ''highUptake_mol'' \<noteq> Object"
    using splitter_Inr_form(2,3)[OF sp[unfolded r]] .
qed

lemma pipeline_ok_form:
  assumes "snd (pipeline h g t) = None"
  shows "\<exists>df0 fs1 tr te g1 df_nan g2.
           clean (read_csv t) = Inr df0
         \<and> splitter Map.empty g df0 = (fs1, Inr (tr, te, g1))
         \<and> corruptor h g1 tr = Inr (df_nan, g2)
         \<and> fst (pipeline h g t) = fs1(''./data/train.csv'' \<mapsto> to_csv df_nan)"
proof -
  obtain df0 where cl: "clean (read_csv t) = Inr df0"
    using assms by (cases "clean (read_csv t)") (auto simp: pipeline_def)
  obtain fs1 r where sp: "splitter Map.empty g df0 = (fs1, r)" by (cases "splitter Map.empty g df0")
  obtain tr te g1 where r: "r = Inr (tr, te, g1)"
    using assms cl sp by (cases r) (auto simp: pipeline_def)
  obtain df_nan g2 where co: "corruptor h g1 tr = Inr (df_nan, g2)"
    using assms cl sp r by (cases "corruptor h g1 tr") (auto simp: pipeline_def)
  have "fst (pipeline h g t) = fs1(''./data/train.csv'' \<mapsto> to_csv df_nan)"
    using cl sp r co by (simp add: pipeline_def)
  then show ?thesis using cl sp r co by blast
qed

lemma count_selected:
  assumes "distinct (map fst rs)" "distinct sel" "set sel \<subseteq> fst ` set rs"
  shows "length (filter (\<lambda>(l, r). l \<in> set sel) rs) = length sel"
proof -
  have "length (filter (\<lambda>(l, r). l \<in> set sel) rs) = length (filter (\<lambda>l. l \<in> set sel) (map fst rs))"
    by (induction rs) auto
  also have "\<dots> = card ({l. l \<in> set sel} \<inter> set (map fst rs))"
    using assms(1) by (rule distinct_length_filter)
  also have "{l. l \<in> set sel} \<inter> set (map fst rs) = set sel" using assms(3) by auto
  finally show ?thesis using assms(2) by (simp add: distinct_card)
qed

lemma cell_at_eta: "cell_at df p = snd (rows df ! p)"
  by (simp add: fun_eq_iff cell_at_def)

lemma rows_nth_conv:
  "rows df = map (\<lambda>p. (label_at df p, cell_at df p)) [0..<len df]"
  by (rule nth_equalityI) (simp_all add: label_at_def cell_at_eta len_def)

lemma filter_positions:
  "length (filter P (map f [0..<n])) = card {p. p < n \<and> P (f p)}"
proof -
  have "length (filter P (map f [0..<n])) = length (filter (P \<circ> f) [0..<n])"
    by (simp add: filter_map)
  also have "\<dots> = card ({p. (P \<circ> f) p} \<inter> set [0..<n])"
    by (rule distinct_length_filter) simp
  also have "{p. (P \<circ> f) p} \<inter> set [0..<n] = {p. p < n \<and> P (f p)}" by auto
  finally show ?thesis .
qed

lemma example_no_nan:
  "\<forall>r \<in> set (t_rows (example_table (FloatV 1) n)). \<forall>c \<in> set (columns (example_frame (FloatV 1) n)). r c \<noteq> NaN"
  by (auto simp: example_table_def example_frame_def example_row_def)

lemma drop_columns_error: "drop_columns names df = Inl e \<Longrightarrow> e = KeyError"
  by (auto simp: drop_columns_def split: if_splits)

lemma clean_error: "clean df = Inl e \<Longrightarrow> e = KeyError"
  by (auto simp: clean_def split: sum.splits dest: drop_columns_error)

lemma nlargest_error: "nlargest n col df = Inl e \<Longrightarrow> e = KeyError \<or> e = TypeError"
  by (auto simp: nlargest_def split: if_splits)

lemma sample_error: "sample g df k = Inl e \<Longrightarrow> e = ValueError"
  by (auto simp: sample_def split: sum.splits dest: rand_choice_error)

lemma held_out_indices_error:
  "held_out_indices g df = Inl e \<Longrightarrow> e = KeyError \<or> e = TypeError \<or> e = ValueError"
  by (auto simp: held_out_indices_def Let_def split: sum.splits prod.splits
      dest: nlargest_error sample_error rand_choice_error)

lemma corruptor_error: "corruptor h g df = Inl e \<Longrightarrow> e = ValueError"
proof -
  have "corrupt_rows fcols g df idxs = Inl e \<Longrightarrow> e = ValueError" for fcols g df idxs
    by (induction idxs arbitrary: g df)
       (auto simp: split_beta split: sum.splits prod.splits dest: rand_choice_error)
  then show "corruptor h g df = Inl e \<Longrightarrow> e = ValueError"
    by (auto simp: corruptor_def split: sum.splits prod.splits dest: rand_choice_error)
qed

lemma pipeline_outcome:
  obtains (clean_fail) err where
      "clean (read_csv t) = Inl err" "pipeline h g t = (Map.empty, Some err)" "err = KeyError"
  | (held_fail) df0 err where
      "clean (read_csv t) = Inr df0" "held_out_indices g (with_id df0) = Inl err"
      "splitter Map.empty g df0 = (Map.empty, Inl err)"
      "pipeline h g t = (Map.empty, Some err)"
      "err = KeyError \<or> err = TypeError \<or> err = ValueError"
  | (overflow) df0 x fs3 where
      "clean (read_csv t) = Inr df0" "held_out_indices g (with_id df0) = Inr x"
      "range_overflows (col_min ''highUptake_mol'' df0) (col_max ''highUptake_mol'' df0)"
      "splitter Map.empty g df0 = (fs3, Inl OverflowError)"
      "pipeline h g t = (fs3, Some OverflowError)"
      "dom fs3 = {''./data/solution.csv'', ''./data/test.csv''}"
  | (corruptor_fail) df0 x fs3 tr te where
      "clean (read_csv t) = Inr df0" "held_out_indices g (with_id df0) = Inr x"
      "\<not> range_overflows (col_min ''highUptake_mol'' df0) (col_max ''highUptake_mol'' df0)"
      "splitter Map.empty g df0 = (fs3, Inr (tr, te, drop 199 g))"
      "corruptor h (drop 199 g) tr = Inl ValueError"
      "pipeline h g t = (fs3, Some ValueError)"
      "dom fs3 = {''./data/solution.csv'', ''./data/test.csv'', ''./data/sample_submission.csv''}"
  | (complete) df0 x fs3 tr te df_nan g2 where
      "clean (read_csv t) = Inr df0" "held_out_indices g (with_id df0) = Inr x"
      "\<not> range_overflows (col_min ''highUptake_mol'' df0) (col_max ''highUptake_mol'' df0)"
      "splitter Map.empty g df0 = (fs3, Inr (tr, te, drop 199 g))"
      "corruptor h (drop 199 g) tr = Inr (df_nan, g2)"
      "pipeline h g t = (fs3(''./data/train.csv'' \<mapsto> to_csv df_nan), None)"
      "dom fs3 = {''./data/solution.csv'', ''./data/test.csv'', ''./data/sample_submission.csv''}"
proof (cases "clean (read_csv t)")
  case (Inl err)
  have "pipeline h g t = (Map.empty, Some err)" by (simp add: pipeline_def Inl)
  then show ?thesis using clean_fail[OF Inl _ clean_error[OF Inl]] by blast
next
  case cl: (Inr df0)
  have dist: "distinct (index df0)" using clean_index(1)[OF cl] by simp
  show ?thesis
  proof (cases "held_out_indices g (with_id df0)")
    case (Inl err)
    have sp: "splitter Map.empty g df0 = (Map.empty, Inl err)"
      unfolding splitter_def Let_def with_id_def[symmetric] Inl by simp
    have "pipeline h g t = (Map.empty, Some err)" by (simp add: pipeline_def cl sp)
    then show ?thesis using held_fail[OF cl Inl sp _ held_out_indices_error[OF Inl]] by blast
  next
    case (Inr x)
    have "100 \<le> len (with_id df0)"
      using held_out_indices_len[OF Inr] dist by (simp add: with_id_simps)
    then have n: "100 \<le> len df0" by (simp add: with_id_simps)
    then have N: "100 \<le> length (t_rows t)" using clean_index(2)[OF cl] by simp
    have "''highUptake_mol'' \<in> set (columns (with_id df0))" "dtypes (with_id df0) ''highUptake_mol'' \<noteq> Object"
      using held_out_indices_Inr[OF Inr] by simp_all
    then have col: "''highUptake_mol'' \<in> set (columns df0)" and ty: "dtypes df0 ''highUptake_mol'' \<noteq> Object"
      by (auto simp: with_id_simps split: if_splits)
    have cols: "''highUptake_mol'' \<in> set (columns (with_id df0))" "''id'' \<in> set (columns (with_id df0))"
      using col by (auto simp: with_id_simps)
    define fs3 where "fs3 = fst (split_outputs Map.empty (drop 99 g) (with_id df0)
                      (test_frame (with_id df0) (held_out_of g (with_id df0))))"
    note pl = pipeline_split_general[OF cl N col ty fs3_def, of h]
    note sp = splitter_split[OF dist n col ty, of Map.empty g, folded fs3_def]
    note d = split_files(4)[OF cols fs3_def, unfolded col_min_max_with_id]
    let ?tr = "train_frame (with_id df0) (held_out_of g (with_id df0))"
    let ?te = "test_frame (with_id df0) (held_out_of g (with_id df0))"
    show ?thesis
    proof (cases "range_overflows (col_min ''highUptake_mol'' df0) (col_max ''highUptake_mol'' df0)")
      case True
      have a: "splitter Map.empty g df0 = (fs3, Inl OverflowError)" using sp True by simp
      have b: "pipeline h g t = (fs3, Some OverflowError)" using pl True by simp
      have c: "dom fs3 = {''./data/solution.csv'', ''./data/test.csv''}" using d True by simp
      show ?thesis using overflow[OF cl Inr True a b c] .
    next
      case False
      have a: "splitter Map.empty g df0 = (fs3, Inr (?tr, ?te, drop 199 g))" using sp False by simp
      have c: "dom fs3 = {''./data/solution.csv'', ''./data/test.csv'', ''./data/sample_submission.csv''}"
        using d False by simp
      show ?thesis
      proof (cases "corruptor h (drop 199 g) ?tr")
        case (Inl err)
        have e: "err = ValueError" using corruptor_error[OF Inl] .
        have b: "pipeline h g t = (fs3, Some ValueError)" using pl False Inl e by simp
        show ?thesis using corruptor_fail[OF cl Inr False a Inl[unfolded e] b c] .
      next
        case co: (Inr y)
        obtain df_nan g2 where y: "y = (df_nan, g2)" by (cases y)
        have b: "pipeline h g t = (fs3(''./data/train.csv'' \<mapsto> to_csv df_nan), None)"
          using pl False co y by simp
        show ?thesis using complete[OF cl Inr False a co[unfolded y] b c] .
      qed
    qed
  qed
qed

lemma example_files_dom:
  "0 < n \<Longrightarrow> n < 2 ^ 1000 \<Longrightarrow>
   dom (example_files v n g) = {''./data/solution.csv'', ''./data/test.csv'', ''./data/sample_submission.csv''}"
proof -
  assume n: "0 < n" "n < 2 ^ 1000"
  have c: "''highUptake_mol'' \<in> set (columns (with_id (example_frame v n)))"
      "''id'' \<in> set (columns (with_id (example_frame v n)))"
    by (simp_all add: with_id_simps example_frame_def)
  show ?thesis
    using split_files(4)[OF c refl, of "replicate 100 0 @ g" example_combined] example_range[OF n, of v]
    by (simp add: example_files_def example_test_def col_min_max_with_id)
qed

lemma example_run_oversized:
  "pipeline hash_a_first (replicate 199 0 @ [0, 9, 9, 9, 0]) (example_table v 108)
     = (example_files v 108 [0, 9, 9, 9, 0], Some ValueError)"
  using example_pipeline_108[of hash_a_first "[0, 9, 9, 9, 0]" v] by (simp add: example_corruptor_oversized)

lemma clean_example_missing: "clean (read_csv (example_missing n)) = Inr (example_missing_frame n)"
  by (simp add: clean_def read_csv_def example_missing_def example_missing_frame_def drop_columns_def
      categorical_features_def target_variables_def)

lemma example_missing_overflow:
  "range_overflows (col_min ''highUptake_mol'' (example_missing_frame n))
     (col_max ''highUptake_mol'' (example_missing_frame n))"
proof -
  have "map (\<lambda>(l, r). case num_of (r ''highUptake_mol'') of None \<Rightarrow> [] | Some x \<Rightarrow> [x])
          (map (\<lambda>j. (j, example_missing_row j)) [0..<n]) = map (\<lambda>j. []) [0..<n]"
    by (simp add: example_missing_row_def)
  then have "col_values ''highUptake_mol'' (example_missing_frame n) = []"
    unfolding col_values_def example_missing_frame_def frame.simps zip_upt_map by simp
  then show ?thesis by (simp add: range_overflows_def col_min_def)
qed

lemma example_missing_held_out:
  "held_out_indices g (with_id (example_missing_frame 108))
     = Inr (held_out_of g (with_id (example_missing_frame 108)), drop 99 g)"
proof -
  have i: "index (example_missing_frame 108) = [0..<108]" "len (example_missing_frame 108) = 108"
    using clean_index[OF clean_example_missing, of 108] by (simp_all add: example_missing_def)
  have a: "distinct (index (with_id (example_missing_frame 108)))"
    "100 \<le> len (with_id (example_missing_frame 108))"
    by (simp_all add: with_id_simps i)
  have b: "''highUptake_mol'' \<in> set (columns (with_id (example_missing_frame 108)))"
    "dtypes (with_id (example_missing_frame 108)) ''highUptake_mol'' \<noteq> Object"
    by (simp_all add: with_id_simps example_missing_frame_def example_dtypes_def)
  show ?thesis using a b by (rule held_out_indices_ok(1))
qed

lemma example_no_columns_run:
  "clean (read_csv example_no_columns) = Inl KeyError"
  "pipeline h g example_no_columns = (Map.empty, Some KeyError)"
  by (simp_all add: pipeline_def clean_def read_csv_def example_no_columns_def drop_columns_def)

lemma example_no_target_clean:
  "clean (read_csv example_no_target)
     = Inr \<lparr>columns = [''a'', ''n''], dtypes = example_dtypes, rows = []\<rparr>"
  by (simp add: clean_def read_csv_def example_no_target_def drop_columns_def
      categorical_features_def target_variables_def)

lemma example_no_target_held_out:
  "held_out_indices g (with_id \<lparr>columns = [''a'', ''n''], dtypes = example_dtypes, rows = []\<rparr>)
     = Inl KeyError"
  using held_out_indices_target[of "\<lparr>columns = [''a'', ''n''], dtypes = example_dtypes, rows = []\<rparr>" g]
  by simp

section \<open>The claims\<close>

text \<open>
  Claim C1 (as amended). For every run of the corruption cell on the training frame the
  split cell returns: the column names and the row labels stay as they are; a cell that
  changes becomes the missing-value marker, lies in a selected row and in a column whose
  declared type is float64; every cell of the \<open>id\<close> column and of every column whose
  declared type is not float64 keeps its value. The target column is not exempt: it is
  a float64 column like any other.
\<close>

theorem corruption_frame:
  assumes "splitter fs g0 df0 = (fs', Inr (df_train, df_test, g))"
    and "corruptor h g df_train = Inr (df', g')"
  shows "columns df' = columns df_train \<and> index df' = index df_train
       \<and> column ''id'' df' = column ''id'' df_train
       \<and> (\<forall>c. dtypes df_train c \<noteq> Float64 \<longrightarrow> column c df' = column c df_train)
       \<and> (\<exists>sel g1. rand_choice g (index df_train) (len df_train div 8) = Inr (sel, g1)
            \<and> (\<forall>p c. p < len df_train \<longrightarrow> cell_at df' p c \<noteq> cell_at df_train p c \<longrightarrow>
                  cell_at df' p c = NaN \<and> label_at df_train p \<in> set sel
                  \<and> c \<in> set (columns df_train) \<and> dtypes df_train c = Float64))"
proof -
  obtain labels where tr: "df_train = train_frame (with_id df0) labels"
    using splitter_Inr_form(1)[OF assms(1)] by blast
  have id: "dtypes df_train ''id'' \<noteq> Float64"
    by (simp add: tr train_frame_simps with_id_simps)
  obtain sel where sel: "rand_choice g (index df_train) (len df_train div 8)
                           = Inr (sel, drop (len df_train div 8) g)"
    and cells: "\<And>p c. p < len df_train \<Longrightarrow> cell_at df' p c \<noteq> cell_at df_train p c \<Longrightarrow>
                  cell_at df' p c = NaN \<and> label_at df_train p \<in> set sel
                  \<and> c \<in> set (columns df_train) \<and> dtypes df_train c = Float64"
    using corruptor_frame(5)[OF assms(2)] by blast
  show ?thesis
    using corruptor_frame(1,3)[OF assms(2)] corruptor_column_kept[OF assms(2)] id sel cells
    by blast
qed

text \<open>
  The example run with 108 rows, all draws zero and \<open>a\<close> first in the hash order:
  the split and the corruption succeed, and the frame property holds of their results.
\<close>

theorem corruption_frame_witness:
  "splitter Map.empty (replicate 199 0) (example_frame (FloatV 1) 108)
     = (example_files (FloatV 1) 108 [],
        Inr (example_train (FloatV 1) 108, example_test (FloatV 1) 108, []))
   \<and> corruptor hash_a_first [] (example_train (FloatV 1) 108)
     = Inr (set_nan 100 [''a''] (example_train (FloatV 1) 108), [])
   \<and> column ''id'' (set_nan 100 [''a''] (example_train (FloatV 1) 108))
     = column ''id'' (example_train (FloatV 1) 108)
   \<and> dtypes (example_train (FloatV 1) 108) ''n'' \<noteq> Float64
   \<and> column ''n'' (set_nan 100 [''a''] (example_train (FloatV 1) 108))
     = column ''n'' (example_train (FloatV 1) 108)"
proof -
  have "dtypes (example_train (FloatV 1) 108) ''n'' \<noteq> Float64"
    by (simp add: example_train_def example_dtypes_def)
  then show ?thesis
    using corruption_frame[OF example_splitter_108 example_corruptor_a, of "FloatV 1"]
      example_splitter_108[of "FloatV 1"] example_corruptor_a[of "FloatV 1"]
    by blast
qed

text \<open>
  Claim C1 as stated fails: in the example run whose draws for the corruption cell are
  0 for the row, four failed trials for the count and 1 for the column, the row
  labelled 100 is selected, one column is drawn and it is the target, whose cell is
  overwritten.
\<close>

theorem target_cell_overwritten:
  "splitter Map.empty (replicate 199 0 @ [0, 0, 0, 0, 0, 1]) (example_frame (FloatV 1) 108)
     = (example_files (FloatV 1) 108 [0, 0, 0, 0, 0, 1],
        Inr (example_train (FloatV 1) 108, example_test (FloatV 1) 108, [0, 0, 0, 0, 0, 1]))
   \<and> corruptor hash_a_first [0, 0, 0, 0, 0, 1] (example_train (FloatV 1) 108)
     = Inr (set_nan 100 [''highUptake_mol''] (example_train (FloatV 1) 108), [])
   \<and> cell_at (example_train (FloatV 1) 108) 0 ''highUptake_mol'' = FloatV (- 100)
   \<and> cell_at (set_nan 100 [''highUptake_mol''] (example_train (FloatV 1) 108)) 0 ''highUptake_mol'' = NaN"
  using example_splitter[of 108 "[0, 0, 0, 0, 0, 1]" "FloatV 1"] example_corruptor_pick_target[of "FloatV 1"]
    example_cells[of "FloatV 1"]
  by simp

text \<open>
  Claim C2 (as amended). Whenever \<open>train.csv\<close> is written, its header is the column
  list of the cleaned frame with the \<open>id\<close> column, appended last unless the input
  already had a column of that name; so \<open>id\<close> is always present in it.
\<close>

theorem train_csv_header:
  assumes "clean (read_csv t) = Inr df0"
    and "fst (pipeline h g t) ''./data/train.csv'' = Some f"
  shows "fst f = (if ''id'' \<in> set (columns df0) then columns df0 else columns df0 @ [''id''])
       \<and> ''id'' \<in> set (fst f)"
proof -
  obtain df1 labels g1 g2 df_nan where w: "clean (read_csv t) = Inr df1"
      "corruptor h g1 (train_frame (with_id df1) labels) = Inr (df_nan, g2)" "f = to_csv df_nan"
    using pipeline_train_written[OF assms(2)] by blast
  have "df1 = df0" using w(1) assms(1) by simp
  then have "columns df_nan = columns (with_id df0)"
    using corruptor_frame(1)[OF w(2)] by (simp add: train_frame_simps)
  then show ?thesis by (simp add: w(3) to_csv_def with_id_simps)
qed

text \<open>
  The example run: the cleaned columns are \<open>a\<close>, \<open>n\<close> and the target, and the
  header of \<open>train.csv\<close> is these followed by \<open>id\<close>.
\<close>

theorem train_csv_header_witness:
  "clean (read_csv (example_table (FloatV 1) 108)) = Inr (example_frame (FloatV 1) 108)
   \<and> columns (example_frame (FloatV 1) 108) = [''a'', ''n'', ''highUptake_mol'']
   \<and> fst (the (fst (pipeline hash_a_first (replicate 199 0) (example_table (FloatV 1) 108))
                  ''./data/train.csv''))
       = [''a'', ''n'', ''highUptake_mol''] @ [''id'']"
  using train_csv_header[OF clean_example example_train_csv_a, of "FloatV 1"]
  by (simp add: clean_example example_train_csv_a example_frame_def)

text \<open>
  Claim C2 as stated fails: the header of \<open>train.csv\<close> of the example run contains
  \<open>id\<close>.
\<close>

theorem train_csv_has_id:
  "map_option fst (fst (pipeline hash_a_first (replicate 199 0) (example_table (FloatV 1) 108))
                     ''./data/train.csv'')
     = Some [''a'', ''n'', ''highUptake_mol'', ''id'']"
  by (simp add: example_train_csv_a)

text \<open>
  Claim C3 (as amended). On the training frame the split cell returns, the per-row
  count is one more than a binomial draw over as many trials as that frame has columns
  (the cleaned columns and \<open>id\<close>), not as many as there are eligible columns, with
  success probability 0.1: the count consumes exactly one draw per column, and among
  the \<open>10 ^ C\<close> sequences of \<open>C\<close> trial draws over the ten residues, those that give
  the count \<open>j + 1\<close> number \<open>(C choose j) * 9 ^ (C - j)\<close>, for every \<open>j\<close> and whatever
  draws follow.
\<close>

theorem num_nans_trials:
  assumes "splitter fs g0 df0 = (fs', Inr (df_train, df_test, g1))"
  shows "length (columns df_train) = length (columns (with_id df0))
       \<and> (\<forall>j rest.
            card {tape. length tape = length (columns df_train) \<and> set tape \<subseteq> {0..<10}
                    \<and> fst (num_nans (tape @ rest) df_train) = j + 1}
              = (length (columns df_train) choose j) * 9 ^ (length (columns df_train) - j))
       \<and> (\<forall>tape rest. length tape = length (columns df_train) \<longrightarrow>
            snd (num_nans (tape @ rest) df_train) = rest)"
proof -
  obtain labels where tr: "df_train = train_frame (with_id df0) labels"
    using splitter_Inr_form(1)[OF assms(1)] by blast
  have a: "length (columns df_train) = length (columns (with_id df0))"
    by (simp add: tr train_frame_simps)
  show ?thesis using a num_nans_count[of df_train] by (simp add: num_nans_rng)
qed

text \<open>
  The example run: the training frame has four columns, the count consumes four draws,
  and 4 * 9 ^ 3 of the 10 ^ 4 sequences of trial draws give the count 2.
\<close>

theorem num_nans_trials_witness:
  "splitter Map.empty (replicate 199 0) (example_frame (FloatV 1) 108)
     = (example_files (FloatV 1) 108 [],
        Inr (example_train (FloatV 1) 108, example_test (FloatV 1) 108, []))
   \<and> length (columns (example_train (FloatV 1) 108)) = 4
   \<and> length [9, 0, 0, 0::nat] = length (columns (example_train (FloatV 1) 108))
   \<and> snd (num_nans ([9, 0, 0, 0] @ [7]) (example_train (FloatV 1) 108)) = [7]
   \<and> card {tape. length tape = 4 \<and> set tape \<subseteq> {0..<10}
             \<and> fst (num_nans tape (example_train (FloatV 1) 108)) = 2} = 4 * 9 ^ 3"
proof -
  have l: "length (columns (example_train (FloatV 1) 108)) = 4" by (simp add: example_train_108)
  note t = num_nans_trials[OF example_splitter_108, of "FloatV 1"]
  have c: "card {tape. length tape = 4 \<and> set tape \<subseteq> {0..<10}
             \<and> fst (num_nans tape (example_train (FloatV 1) 108)) = 2}
            = (4 choose 1) * 9 ^ (4 - 1)"
    using t[THEN conjunct2, THEN conjunct1, THEN spec, of 1, THEN spec, of "[]"]
    unfolding l one_add_one append_Nil2 .
  have r: "snd (num_nans ([9, 0, 0, 0] @ [7]) (example_train (FloatV 1) 108)) = [7]"
    using t[THEN conjunct2, THEN conjunct2, THEN spec, of "[9, 0, 0, 0]", THEN spec, of "[7]"] l by simp
  have c': "card {tape. length tape = 4 \<and> set tape \<subseteq> {0..<10}
             \<and> fst (num_nans tape (example_train (FloatV 1) 108)) = 2} = 4 * 9 ^ 3"
    using c by simp
  show ?thesis using l r c' example_splitter_108[of "FloatV 1"] by simp
qed

text \<open>
  Claim C3 as stated fails: in the example run whose draws for the corruption cell are
  0 for the row and three successful trials out of four, the training frame has two
  eligible columns and the count drawn for the selected row is 4, more than a binomial
  over two trials plus one can give.
\<close>

theorem num_nans_exceeds_eligible:
  "splitter Map.empty (replicate 199 0 @ [0, 9, 9, 9, 0]) (example_frame (FloatV 1) 108)
     = (example_files (FloatV 1) 108 [0, 9, 9, 9, 0],
        Inr (example_train (FloatV 1) 108, example_test (FloatV 1) 108, [0, 9, 9, 9, 0]))
   \<and> rand_choice [0, 9, 9, 9, 0] (index (example_train (FloatV 1) 108))
        (len (example_train (FloatV 1) 108) div 8)
     = Inr ([100], [9, 9, 9, 0])
   \<and> length (float64_columns hash_a_first (example_train (FloatV 1) 108)) = 2
   \<and> fst (num_nans [9, 9, 9, 0] (example_train (FloatV 1) 108)) = 4"
  using example_splitter[of 108 "[0, 9, 9, 9, 0]" "FloatV 1"]
  by (simp add: example_train_108 rand_choice_def example_float64_a example_num_nans)




text \<open>
  Claim C5. For every input table with at least 100 rows the split cell ends in one of
  four ways, and never with a failed assertion: KeyError when the cleaned frame has no
  target column, TypeError when the target is an object column, OverflowError when the
  range of the target is not finite (\<open>np.random.uniform\<close>), and otherwise it returns
  the training and the held-out frame. Whenever it returns, the two frames together
  have as many rows as the cleaned table, the held-out frame has 100 rows, the \<open>id\<close>
  values are duplicate-free on each side, and no \<open>id\<close> occurs on both sides.
\<close>

theorem split_partition:
  assumes "clean (read_csv t) = Inr df0"
    and "100 \<le> length (t_rows t)"
  shows "snd (splitter fs g df0) =
           (if ''highUptake_mol'' \<notin> set (columns df0) then Inl KeyError
            else if dtypes df0 ''highUptake_mol'' = Object then Inl TypeError
            else if range_overflows (col_min ''highUptake_mol'' df0) (col_max ''highUptake_mol'' df0)
              then Inl OverflowError
            else Inr (train_frame (with_id df0) (held_out_of g (with_id df0)),
                      test_frame (with_id df0) (held_out_of g (with_id df0)),
                      drop 199 g))
       \<and> (\<forall>fs' df_train df_test g'.
            splitter fs g df0 = (fs', Inr (df_train, df_test, g')) \<longrightarrow>
              len df_train + len df_test = length (t_rows t)
            \<and> len df_test = 100
            \<and> distinct (column ''id'' df_train)
            \<and> distinct (column ''id'' df_test)
            \<and> set (column ''id'' df_train) \<inter> set (column ''id'' df_test) = {})"
proof (intro conjI allI impI)
  have i: "distinct (index df0)" "100 \<le> len df0"
    using clean_index[OF assms(1)] assms(2) by simp_all
  show "snd (splitter fs g df0) =
           (if ''highUptake_mol'' \<notin> set (columns df0) then Inl KeyError
            else if dtypes df0 ''highUptake_mol'' = Object then Inl TypeError
            else if range_overflows (col_min ''highUptake_mol'' df0) (col_max ''highUptake_mol'' df0)
              then Inl OverflowError
            else Inr (train_frame (with_id df0) (held_out_of g (with_id df0)),
                      test_frame (with_id df0) (held_out_of g (with_id df0)),
                      drop 199 g))"
  proof (cases "''highUptake_mol'' \<notin> set (columns df0) \<or> dtypes df0 ''highUptake_mol'' = Object")
    case True
    then show ?thesis using splitter_target[OF True, of fs g] by auto
  next
    case False
    then show ?thesis using splitter_split[OF i, of fs g] by simp
  qed
next
  fix fs' df_train df_test g'
  assume s: "splitter fs g df0 = (fs', Inr (df_train, df_test, g'))"
  have i: "distinct (index df0)" "100 \<le> len df0"
    using clean_index[OF assms(1)] assms(2) by simp_all
  note a = splitter_asserts[OF s]
  show "len df_train + len df_test = length (t_rows t)"
    using a(1) clean_index(2)[OF assms(1)] by simp
  show "distinct (column ''id'' df_train)" "distinct (column ''id'' df_test)"
    "set (column ''id'' df_train) \<inter> set (column ''id'' df_test) = {}"
    using a by simp_all
  note f = splitter_Inr_form(2,3)[OF s]
  have "df_test = test_frame (with_id df0) (held_out_of g (with_id df0))"
    using splitter_split[OF i f, of fs g] s by (simp split: if_splits)
  moreover have "length (held_out_of g (with_id df0)) = 100"
    using held_out_indices_ok(3)[of "with_id df0" g] i f by (simp add: with_id_simps)
  ultimately show "len df_test = 100" by (simp add: len_def test_frame_def)
qed

text \<open>
  The example table with 108 rows: the split cell returns, and the properties hold of
  the frames it returns.
\<close>

theorem split_partition_witness:
  "\<exists>fs' df_train df_test g'.
           splitter Map.empty [] (example_frame (FloatV 1) 108) = (fs', Inr (df_train, df_test, g'))
         \<and> 100 \<le> length (t_rows (example_table (FloatV 1) 108))
         \<and> len df_train + len df_test = length (t_rows (example_table (FloatV 1) 108))
         \<and> len df_test = 100
         \<and> distinct (column ''id'' df_train)
         \<and> distinct (column ''id'' df_test)
         \<and> set (column ''id'' df_train) \<inter> set (column ''id'' df_test) = {}"
proof -
  have a: "100 \<le> length (t_rows (example_table (FloatV 1) 108))" by (simp add: example_table_def)
  have b: "''highUptake_mol'' \<in> set (columns (example_frame (FloatV 1) 108))" by (simp add: example_frame_def)
  have c: "dtypes (example_frame (FloatV 1) 108) ''highUptake_mol'' \<noteq> Object"
    by (simp add: example_frame_def example_dtypes_def)
  have e: "\<not> range_overflows (col_min ''highUptake_mol'' (example_frame (FloatV 1) 108))
             (col_max ''highUptake_mol'' (example_frame (FloatV 1) 108))"
    by (rule example_range) simp_all
  note sp = split_partition[OF clean_example a, of Map.empty "[]"]
  obtain fs' r where s: "splitter Map.empty [] (example_frame (FloatV 1) 108) = (fs', r)"
    by (cases "splitter Map.empty [] (example_frame (FloatV 1) 108)")
  obtain tr te g' where r: "r = Inr (tr, te, g')"
    using sp[THEN conjunct1] s b c e by simp
  show ?thesis
    using sp[THEN conjunct2, rule_format, OF s[unfolded r]] s r a by blast
qed

text \<open>
  Claim C6 (as amended). For a cleaned table of at least 100 rows that holds no
  missing-value marker in any of its columns, when the run ends without error, exactly
  \<open>(N - 100) div 8\<close> rows of \<open>train.csv\<close> hold at least one missing-value marker:
  every selected row receives one and no other row does.
\<close>

theorem nan_row_count:
  assumes cl: "clean (read_csv t) = Inr df0"
    and n: "100 \<le> length (t_rows t)"
    and ok: "snd (pipeline h g t) = None"
    and nonan: "\<forall>r \<in> set (t_rows t). \<forall>c \<in> set (columns df0). r c \<noteq> NaN"
  shows "\<exists>f. fst (pipeline h g t) ''./data/train.csv'' = Some f
           \<and> length (snd f) = length (t_rows t) - 100
           \<and> length (filter (\<lambda>r. NaN \<in> set r) (snd f)) = (length (t_rows t) - 100) div 8"
proof -
  obtain df1 fs1 tr te g1 df_nan g2 where p: "clean (read_csv t) = Inr df1"
      "splitter Map.empty g df1 = (fs1, Inr (tr, te, g1))"
      "corruptor h g1 tr = Inr (df_nan, g2)"
      "fst (pipeline h g t) = fs1(''./data/train.csv'' \<mapsto> to_csv df_nan)"
    using pipeline_ok_form[OF ok] by blast
  have df1: "df1 = df0" using p(1) cl by simp
  define df where "df = with_id df0"
  define combined where "combined = held_out_of g df"
  let ?N = "length (t_rows t)"
  let ?F = "\<lambda>j. (j, (t_rows t ! j)(''id'' := IntV (int j)))"
  have col: "''highUptake_mol'' \<in> set (columns df0)" "dtypes df0 ''highUptake_mol'' \<noteq> Object"
    using splitter_Inr_form(2,3)[OF p(2)] by (simp_all add: df1)
  have idx0: "distinct (index df0)" "100 \<le> len df0" "index df0 = [0..<?N]"
    using clean_index[OF cl] n by simp_all
  have tr: "tr = train_frame df combined"
    using splitter_Inr_explicit(2)[OF p(2)[unfolded df1] idx0(1)]
    by (simp add: df_def combined_def)
  have idx: "index df = [0..<?N]" "len df = ?N" "distinct (index df)"
    using clean_index[OF cl] by (simp_all add: df_def with_id_simps)
  have cols: "''highUptake_mol'' \<in> set (columns df)" "dtypes df ''highUptake_mol'' \<noteq> Object"
    using col by (auto simp: df_def with_id_simps)
  have ho: "distinct combined" "length combined = 100" "set combined \<subseteq> set (index df)"
    unfolding combined_def
    using held_out_indices_ok[of df g] idx n cols by simp_all
  have rows: "rows df = map ?F [0..<?N]" unfolding df_def by (rule rows_with_id_clean[OF cl])
  have dist_rows: "distinct (map fst (rows df))" using idx(3) by (simp add: index_def)
  have sub: "set combined \<subseteq> fst ` set (rows df)" using ho(3) by (simp add: index_def)
  have len_tr: "len tr = ?N - 100"
    using length_filter_rows[OF dist_rows ho(1) sub] ho(2) idx(2)
    by (simp add: tr len_def train_frame_def)
  have dist_tr: "distinct (index tr)"
    using dist_rows by (simp add: tr train_frame_def index_def filter_rows_index)
  have cols_tr: "columns tr = columns df" by (simp add: tr train_frame_simps)
  have clean_tr: "cell_at tr p c \<noteq> NaN" if "p < len tr" "c \<in> set (columns df)" for p c
  proof -
    have "rows tr ! p \<in> set (rows df)"
      using that(1) nth_mem[of p "rows tr"] by (auto simp: tr train_frame_def len_def)
    then obtain j where j: "j < ?N" "rows tr ! p = ?F j" by (auto simp: rows)
    have r: "t_rows t ! j \<in> set (t_rows t)" using j(1) by simp
    show ?thesis
    proof (cases "c = ''id''")
      case True
      then show ?thesis by (simp add: cell_at_def j(2))
    next
      case False
      then have "c \<in> set (columns df0)" using that(2) by (auto simp: df_def with_id_simps split: if_splits)
      then show ?thesis using nonan r False by (simp add: cell_at_def j(2))
    qed
  qed
  obtain sel where sel: "length sel = len tr div 8" "set sel \<subseteq> set (index tr)" "distinct sel"
    and changed: "\<And>p c. p < len tr \<Longrightarrow> cell_at df_nan p c \<noteq> cell_at tr p c \<Longrightarrow>
                     label_at tr p \<in> set sel"
    and marked: "\<And>p. p < len tr \<Longrightarrow> label_at tr p \<in> set sel \<Longrightarrow>
                     \<exists>c \<in> set (columns tr). cell_at df_nan p c = NaN"
    using corruptor_frame(5)[OF p(3)] dist_tr by blast
  have fr: "columns df_nan = columns df" "len df_nan = len tr" "index df_nan = index tr"
    using corruptor_frame(1,3,4)[OF p(3)] cols_tr by simp_all
  have iff: "(NaN \<in> set (map (cell_at df_nan q) (columns df))) = (label_at tr q \<in> set sel)"
    if q: "q < len tr" for q
  proof
    assume "NaN \<in> set (map (cell_at df_nan q) (columns df))"
    then obtain c where c: "c \<in> set (columns df)" "cell_at df_nan q c = NaN" by auto
    then have "cell_at df_nan q c \<noteq> cell_at tr q c" using clean_tr[OF q c(1)] by simp
    then show "label_at tr q \<in> set sel" using changed[OF q] by blast
  next
    assume "label_at tr q \<in> set sel"
    then obtain c where "c \<in> set (columns tr)" "cell_at df_nan q c = NaN"
      using marked[OF q] by blast
    then show "NaN \<in> set (map (cell_at df_nan q) (columns df))"
      using cols_tr by (metis image_eqI list.set_map)
  qed
  have lab: "label_at df_nan q = label_at tr q" if "q < len tr" for q
    using fr(2,3) that by (simp add: index_def label_at_def len_def) (metis nth_map)
  have csv: "snd (to_csv df_nan) = map (\<lambda>q. map (cell_at df_nan q) (columns df)) [0..<len tr]"
    unfolding to_csv_def fr(1) snd_conv
    by (subst rows_nth_conv) (simp add: fr(2) comp_def)
  have "length (filter (\<lambda>r. NaN \<in> set r) (snd (to_csv df_nan)))
          = card {q. q < len tr \<and> NaN \<in> set (map (cell_at df_nan q) (columns df))}"
    unfolding csv by (rule filter_positions)
  also have "{q. q < len tr \<and> NaN \<in> set (map (cell_at df_nan q) (columns df))}
          = {q. q < len tr \<and> label_at tr q \<in> set sel}"
    using iff by blast
  also have "card \<dots> = length (filter (\<lambda>(l, r). l \<in> set sel) (map (\<lambda>q. (label_at tr q, cell_at tr q)) [0..<len tr]))"
    using filter_positions[of "\<lambda>(l, r). l \<in> set sel" "\<lambda>q. (label_at tr q, cell_at tr q)" "len tr"]
    by simp
  also have "\<dots> = length (filter (\<lambda>(l, r). l \<in> set sel) (rows tr))"
    using rows_nth_conv[of tr] by simp
  also have "\<dots> = length sel"
    using count_selected[of "rows tr" sel] dist_tr sel(2,3) by (simp add: index_def)
  finally have cnt: "length (filter (\<lambda>r. NaN \<in> set r) (snd (to_csv df_nan))) = (?N - 100) div 8"
    using sel(1) len_tr by simp
  have "length (snd (to_csv df_nan)) = ?N - 100"
    unfolding csv using len_tr by simp
  then show ?thesis using p(4) cnt by simp
qed

text \<open>
  The example run with 108 rows: the table has no missing value, the run ends without
  error and one row of \<open>train.csv\<close> holds a marker.
\<close>

theorem nan_row_count_witness:
  "clean (read_csv (example_table (FloatV 1) 108)) = Inr (example_frame (FloatV 1) 108)
   \<and> 100 \<le> length (t_rows (example_table (FloatV 1) 108))
   \<and> snd (pipeline hash_a_first (replicate 199 0) (example_table (FloatV 1) 108)) = None
   \<and> (\<exists>f. fst (pipeline hash_a_first (replicate 199 0) (example_table (FloatV 1) 108)) ''./data/train.csv'' = Some f
         \<and> length (snd f) = length (t_rows (example_table (FloatV 1) 108)) - 100
         \<and> length (filter (\<lambda>r. NaN \<in> set r) (snd f))
             = (length (t_rows (example_table (FloatV 1) 108)) - 100) div 8)"
proof -
  have n: "100 \<le> length (t_rows (example_table (FloatV 1) 108))" by (simp add: example_table_def)
  have ok: "snd (pipeline hash_a_first (replicate 199 0) (example_table (FloatV 1) 108)) = None"
    by (simp add: example_run_a)
  show ?thesis
    using nan_row_count[OF clean_example n ok example_no_nan] clean_example n ok by blast
qed

text \<open>
  Claim C6 as stated fails on a table that already has missing values: with the
  feature \<open>a\<close> missing in every row of the 108-row example, all eight rows of
  \<open>train.csv\<close> hold a marker, not one.
\<close>

theorem nan_rows_with_missing_input:
  "snd (pipeline hash_a_first (replicate 199 0) (example_table NaN 108)) = None
   \<and> map_option (\<lambda>f. length (filter (\<lambda>r. NaN \<in> set r) (snd f)))
        (fst (pipeline hash_a_first (replicate 199 0) (example_table NaN 108)) ''./data/train.csv'')
       = Some 8
   \<and> (length (t_rows (example_table NaN 108)) - 100) div 8 = 1"
proof -
  have l: "length (t_rows (example_table NaN 108)) = 108" by (simp add: example_table_def)
  have ok: "snd (pipeline hash_a_first (replicate 199 0) (example_table NaN 108)) = None"
    by (simp add: example_run_a)
  show ?thesis unfolding l example_train_csv_a using ok by simp
qed

text \<open>
  Claim C7. For every run on a table of at least 100 rows with a numeric target column
  whose largest target value is attained by the single row \<open>b\<close>: \<open>test.csv\<close> holds
  that row (its cells without the target, with \<open>id = b\<close>), \<open>solution.csv\<close> holds
  its \<open>id\<close>, its target value and \<open>Public\<close>, and no row of a written \<open>train.csv\<close>
  has the \<open>id\<close> \<open>b\<close>. Both held-out files are written before \<open>np.random.uniform\<close>
  is called, so this holds also of a run that ends there with OverflowError.
\<close>

theorem best_row_held_out:
  assumes cl: "clean (read_csv t) = Inr df0"
    and n: "100 \<le> length (t_rows t)"
    and col: "''highUptake_mol'' \<in> set (columns df0)"
    and ty: "dtypes df0 ''highUptake_mol'' \<noteq> Object"
    and b: "b < length (t_rows t)"
    and mx: "\<forall>j < length (t_rows t). j \<noteq> b \<longrightarrow>
               num_of ((t_rows t ! j) ''highUptake_mol'') < num_of ((t_rows t ! b) ''highUptake_mol'')"
  shows "(\<exists>f. fst (pipeline h g t) ''./data/test.csv'' = Some f
            \<and> map ((t_rows t ! b)(''id'' := IntV (int b))) (fst f) \<in> set (snd f))
       \<and> (\<exists>f. fst (pipeline h g t) ''./data/solution.csv'' = Some f
            \<and> [IntV (int b), (t_rows t ! b) ''highUptake_mol'', StrV ''Public''] \<in> set (snd f))
       \<and> (\<forall>f. fst (pipeline h g t) ''./data/train.csv'' = Some f
            \<longrightarrow> IntV (int b) \<notin> set (csv_column ''id'' f))"
proof -
  define df where "df = with_id df0"
  define combined where "combined = held_out_of g df"
  define fs3 where "fs3 = fst (split_outputs Map.empty (drop 99 g) df (test_frame df combined))"
  let ?F = "\<lambda>j. (j, (t_rows t ! j)(''id'' := IntV (int j)))"
  let ?N = "length (t_rows t)"
  have rows: "rows df = map ?F [0..<?N]" unfolding df_def by (rule rows_with_id_clean[OF cl])
  have idx: "index df = [0..<?N]" "len df = ?N" "distinct (index df)"
    using clean_index[OF cl] by (simp_all add: df_def with_id_simps)
  have cols: "''highUptake_mol'' \<in> set (columns df)" "''id'' \<in> set (columns df)"
      "dtypes df ''highUptake_mol'' \<noteq> Object" "dtypes df ''id'' \<noteq> Float64"
    using col ty by (auto simp: df_def with_id_simps)
  have ho: "distinct combined" "length combined = 100" "set combined \<subseteq> set (index df)"
      "hd combined = fst (hd (sort_desc ''highUptake_mol'' (rows df)))"
    unfolding combined_def
    using held_out_indices_ok[of df g] idx n cols(1,3) by simp_all
  have xin: "?F b \<in> set (rows df)" using b by (simp add: rows)
  have "\<forall>y \<in> set (rows df). y \<noteq> ?F b \<longrightarrow>
          num_of (snd y ''highUptake_mol'') < num_of (snd (?F b) ''highUptake_mol'')"
    using mx by (auto simp: rows)
  from sort_desc_hd[OF xin this] have hdb: "hd combined = b" using ho(4) by simp
  have bin: "b \<in> set combined" using hdb ho(2) by (cases combined) auto
  have pl: "pipeline h g t =
           (if range_overflows (col_min ''highUptake_mol'' df0) (col_max ''highUptake_mol'' df0)
            then (fs3, Some OverflowError)
            else case corruptor h (drop 199 g) (train_frame df combined) of
                   Inl e \<Rightarrow> (fs3, Some e)
                 | Inr (df_nan, g1) \<Rightarrow> (fs3(''./data/train.csv'' \<mapsto> to_csv df_nan), None))"
    unfolding df_def combined_def fs3_def
    by (rule pipeline_split_general[OF cl n col ty refl])
  note sf = split_files[OF cols(1,2) fs3_def]
  have keep: "fst (pipeline h g t) ''./data/test.csv'' = fs3 ''./data/test.csv''"
      "fst (pipeline h g t) ''./data/solution.csv'' = fs3 ''./data/solution.csv''"
    unfolding pl by (auto split: sum.splits)
  have row_test: "?F b \<in> set (rows (test_frame df combined))"
    using test_frame_row[OF idx(3) xin bin] .
  have t1: "\<exists>f. fst (pipeline h g t) ''./data/test.csv'' = Some f
            \<and> map ((t_rows t ! b)(''id'' := IntV (int b))) (fst f) \<in> set (snd f)"
    unfolding keep sf using row_test by (force simp: to_csv_def)
  have usage: "rows (add_column ''Usage'' Object (\<lambda>l p. StrV ''Public'')
                  ((test_frame df combined)\<lparr>columns := [''id'', ''highUptake_mol'']\<rparr>))
                = map (\<lambda>(l, r). (l, r(''Usage'' := StrV ''Public''))) (rows (test_frame df combined))"
    by (simp add: rows_add_column_label)
  have solcsv: "to_csv (add_column ''Usage'' Object (\<lambda>l p. StrV ''Public'')
                  ((test_frame df combined)\<lparr>columns := [''id'', ''highUptake_mol'']\<rparr>))
                = ([''id'', ''highUptake_mol'', ''Usage''],
                   map (\<lambda>(l, r). [r ''id'', r ''highUptake_mol'', StrV ''Public''])
                     (rows (test_frame df combined)))"
    unfolding to_csv_def usage by (simp add: add_column_def split_beta)
  have "[IntV (int b), (t_rows t ! b) ''highUptake_mol'', StrV ''Public'']
          = (\<lambda>(l, r). [r ''id'', r ''highUptake_mol'', StrV ''Public'']) (?F b)"
    by simp
  then have "[IntV (int b), (t_rows t ! b) ''highUptake_mol'', StrV ''Public'']
          \<in> (\<lambda>(l, r). [r ''id'', r ''highUptake_mol'', StrV ''Public'']) ` set (rows (test_frame df combined))"
    using row_test by (metis (no_types, lifting) image_eqI)
  then have t2: "\<exists>f. fst (pipeline h g t) ''./data/solution.csv'' = Some f
            \<and> [IntV (int b), (t_rows t ! b) ''highUptake_mol'', StrV ''Public''] \<in> set (snd f)"
    unfolding keep sf solcsv by simp
  have t3: "IntV (int b) \<notin> set (csv_column ''id'' f)"
    if w: "fst (pipeline h g t) ''./data/train.csv'' = Some f" for f
  proof -
    obtain df_nan g1 where co: "corruptor h (drop 199 g) (train_frame df combined) = Inr (df_nan, g1)"
      and f: "f = to_csv df_nan"
      using w sf(3) unfolding pl by (auto split: sum.splits if_splits)
    have c1: "columns df_nan = columns df"
      using corruptor_frame(1)[OF co] by (simp add: train_frame_simps)
    have "csv_column ''id'' f = column ''id'' df_nan"
      unfolding f using cols(2) c1 by (simp add: csv_column_to_csv)
    also have "\<dots> = column ''id'' (train_frame df combined)"
      using corruptor_column_kept[OF co] cols(4) by (simp add: train_frame_simps)
    also have "\<dots> = map (\<lambda>l. IntV (int l)) (filter (\<lambda>l. l \<notin> set combined) (index df))"
      using column_id_train[of df combined] id_ok_with_id[of df0] by (simp add: df_def)
    finally show ?thesis using bin by auto
  qed
  show ?thesis using t1 t2 t3 by blast
qed

text \<open>
  The example table with 108 rows: the target decreases from row to row, so row 0
  alone attains the maximum, and the three statements hold of its run.
\<close>

theorem best_row_held_out_witness:
  "(\<exists>f. fst (pipeline hash_a_first (replicate 199 0) (example_table (FloatV 1) 108)) ''./data/test.csv'' = Some f
            \<and> map ((t_rows (example_table (FloatV 1) 108) ! 0)(''id'' := IntV (int 0))) (fst f) \<in> set (snd f))
   \<and> (\<exists>f. fst (pipeline hash_a_first (replicate 199 0) (example_table (FloatV 1) 108)) ''./data/solution.csv'' = Some f
            \<and> [IntV (int 0), (t_rows (example_table (FloatV 1) 108) ! 0) ''highUptake_mol'', StrV ''Public'']
                 \<in> set (snd f))
   \<and> (\<exists>f. fst (pipeline hash_a_first (replicate 199 0) (example_table (FloatV 1) 108)) ''./data/train.csv'' = Some f
            \<and> IntV (int 0) \<notin> set (csv_column ''id'' f))"
proof -
  have n: "100 \<le> length (t_rows (example_table (FloatV 1) 108))" by (simp add: example_table_def)
  have col: "''highUptake_mol'' \<in> set (columns (example_frame (FloatV 1) 108))"
    by (simp add: example_frame_def)
  have ty: "dtypes (example_frame (FloatV 1) 108) ''highUptake_mol'' \<noteq> Object"
    by (simp add: example_frame_def example_dtypes_def)
  have b: "0 < length (t_rows (example_table (FloatV 1) 108))" by (simp add: example_table_def)
  have mx: "\<forall>j < length (t_rows (example_table (FloatV 1) 108)). j \<noteq> 0 \<longrightarrow>
       num_of ((t_rows (example_table (FloatV 1) 108) ! j) ''highUptake_mol'')
         < num_of ((t_rows (example_table (FloatV 1) 108) ! 0) ''highUptake_mol'')"
    by (simp add: example_table_def example_row_def)
  have w: "\<exists>f. fst (pipeline hash_a_first (replicate 199 0) (example_table (FloatV 1) 108)) ''./data/train.csv'' = Some f"
    by (simp add: example_train_csv_a)
  show ?thesis
    using best_row_held_out[OF clean_example n col ty b mx, of hash_a_first "replicate 199 0"] w
    by blast
qed

text \<open>
  Claim C8 (as amended). A run that ends without error has written the four files. A
  run that ends with an error has written no file, or exactly \<open>solution.csv\<close> and
  \<open>test.csv\<close>, or exactly these two and \<open>sample_submission.csv\<close>; never
  \<open>train.csv\<close>. No file: a column to drop is missing, or the selection of the
  held-out rows raises. Two files: \<open>np.random.uniform\<close> raises OverflowError between
  the writes of \<open>test.csv\<close> and \<open>sample_submission.csv\<close>, because the range of the
  target is not finite. Three files: the corruption cell raises after a successful
  split. No run ends with a failed assertion.
\<close>

theorem files_written:
  assumes "pipeline h g t = (fs, e)"
  shows "(e = None \<longrightarrow> dom fs = {''./data/solution.csv'', ''./data/test.csv'',
                                 ''./data/sample_submission.csv'', ''./data/train.csv''})
       \<and> (\<forall>err. e = Some err \<longrightarrow>
             dom fs = {} \<and> (err = KeyError \<or> err = TypeError \<or> err = ValueError)
           \<or> dom fs = {''./data/solution.csv'', ''./data/test.csv''} \<and> err = OverflowError
           \<or> dom fs = {''./data/solution.csv'', ''./data/test.csv'', ''./data/sample_submission.csv''}
               \<and> err = ValueError)
       \<and> e \<noteq> Some AssertionError
       \<and> (\<forall>err. clean (read_csv t) = Inl err \<longrightarrow> dom fs = {} \<and> e = Some err)
       \<and> (\<forall>df0 err. clean (read_csv t) = Inr df0 \<longrightarrow> held_out_indices g (with_id df0) = Inl err
             \<longrightarrow> dom fs = {} \<and> e = Some err)
       \<and> (\<forall>df0 x. clean (read_csv t) = Inr df0 \<longrightarrow> held_out_indices g (with_id df0) = Inr x
             \<longrightarrow> range_overflows (col_min ''highUptake_mol'' df0) (col_max ''highUptake_mol'' df0)
             \<longrightarrow> dom fs = {''./data/solution.csv'', ''./data/test.csv''} \<and> e = Some OverflowError)
       \<and> (\<forall>df0 fs1 tr te g1 err.
             clean (read_csv t) = Inr df0 \<longrightarrow> splitter Map.empty g df0 = (fs1, Inr (tr, te, g1))
             \<longrightarrow> corruptor h g1 tr = Inl err
             \<longrightarrow> dom fs = {''./data/solution.csv'', ''./data/test.csv'', ''./data/sample_submission.csv''}
                 \<and> e = Some err)"
proof (cases rule: pipeline_outcome[of t h g])
  case (clean_fail err)
  have fe: "fs = Map.empty" "e = Some err" using assms clean_fail(2) by simp_all
  show ?thesis unfolding fe using clean_fail(1,3) by simp
next
  case (held_fail df0 err)
  have fe: "fs = Map.empty" "e = Some err" using assms held_fail(4) by simp_all
  show ?thesis
  proof (intro conjI allI impI)
    show "e \<noteq> Some AssertionError" using fe held_fail(5) by auto
  qed (use fe held_fail in auto)
next
  case (overflow df0 x fs3)
  have fe: "fs = fs3" "e = Some OverflowError" using assms overflow(5) by simp_all
  show ?thesis
  proof (intro conjI allI impI)
    show "e \<noteq> Some AssertionError" using fe by simp
  qed (use fe overflow in simp_all)
next
  case (corruptor_fail df0 x fs3 tr te)
  have fe: "fs = fs3" "e = Some ValueError" using assms corruptor_fail(6) by simp_all
  show ?thesis
  proof (intro conjI allI impI)
    show "e \<noteq> Some AssertionError" using fe by simp
  qed (use fe corruptor_fail in simp_all)
next
  case (complete df0 x fs3 tr te df_nan g2)
  have fe: "fs = fs3(''./data/train.csv'' \<mapsto> to_csv df_nan)" "e = None" using assms complete(6) by simp_all
  have dall: "dom fs = {''./data/solution.csv'', ''./data/test.csv'',
                            ''./data/sample_submission.csv'', ''./data/train.csv''}"
    using fe(1) complete(7) by auto
  show ?thesis
  proof (intro conjI allI impI)
    show "e \<noteq> Some AssertionError" using fe by simp
  qed (use fe(2) dall complete(1,2,3,4,5) in simp_all)
qed

text \<open>
  Five runs: the example run without error writes the four files; the run on the
  example with the target missing in every row ends with OverflowError after two
  files; the runs on a file without columns and on a file without the target column
  end with KeyError before any file is written; the example run whose count exceeds
  the eligible columns ends with ValueError after three files.
\<close>

theorem files_written_witness:
  "pipeline hash_a_first (replicate 199 0) (example_table (FloatV 1) 108)
     = ((example_files (FloatV 1) 108 [])(''./data/train.csv'' \<mapsto>
          to_csv (set_nan 100 [''a''] (example_train (FloatV 1) 108))), None)
   \<and> dom ((example_files (FloatV 1) 108 [])(''./data/train.csv'' \<mapsto>
          to_csv (set_nan 100 [''a''] (example_train (FloatV 1) 108))))
       = {''./data/solution.csv'', ''./data/test.csv'', ''./data/sample_submission.csv'', ''./data/train.csv''}
   \<and> clean (read_csv (example_missing 108)) = Inr (example_missing_frame 108)
   \<and> held_out_indices [] (with_id (example_missing_frame 108))
       = Inr (held_out_of [] (with_id (example_missing_frame 108)), drop 99 [])
   \<and> range_overflows (col_min ''highUptake_mol'' (example_missing_frame 108))
        (col_max ''highUptake_mol'' (example_missing_frame 108))
   \<and> dom (fst (pipeline hash_a_first [] (example_missing 108)))
       = {''./data/solution.csv'', ''./data/test.csv''}
   \<and> snd (pipeline hash_a_first [] (example_missing 108)) = Some OverflowError
   \<and> clean (read_csv example_no_columns) = Inl KeyError
   \<and> dom (fst (pipeline hash_a_first [] example_no_columns)) = {}
   \<and> snd (pipeline hash_a_first [] example_no_columns) = Some KeyError
   \<and> clean (read_csv example_no_target)
       = Inr \<lparr>columns = [''a'', ''n''], dtypes = example_dtypes, rows = []\<rparr>
   \<and> held_out_indices [] (with_id \<lparr>columns = [''a'', ''n''], dtypes = example_dtypes, rows = []\<rparr>)
       = Inl KeyError
   \<and> dom (fst (pipeline hash_a_first [] example_no_target)) = {}
   \<and> snd (pipeline hash_a_first [] example_no_target) = Some KeyError
   \<and> splitter Map.empty (replicate 199 0 @ [0, 9, 9, 9, 0]) (example_frame (FloatV 1) 108)
       = (example_files (FloatV 1) 108 [0, 9, 9, 9, 0],
          Inr (example_train (FloatV 1) 108, example_test (FloatV 1) 108, [0, 9, 9, 9, 0]))
   \<and> corruptor hash_a_first [0, 9, 9, 9, 0] (example_train (FloatV 1) 108) = Inl ValueError
   \<and> dom (fst (pipeline hash_a_first (replicate 199 0 @ [0, 9, 9, 9, 0]) (example_table (FloatV 1) 108)))
       = {''./data/solution.csv'', ''./data/test.csv'', ''./data/sample_submission.csv''}
   \<and> snd (pipeline hash_a_first (replicate 199 0 @ [0, 9, 9, 9, 0]) (example_table (FloatV 1) 108))
       = Some ValueError"
proof -
  note fw = files_written[OF example_run_a, of "FloatV 1"]
  have a: "dom ((example_files (FloatV 1) 108 [])(''./data/train.csv'' \<mapsto>
          to_csv (set_nan 100 [''a''] (example_train (FloatV 1) 108))))
       = {''./data/solution.csv'', ''./data/test.csv'', ''./data/sample_submission.csv'', ''./data/train.csv''}"
    using fw[THEN conjunct1] by simp
  have p: "pipeline h g t = (fst (pipeline h g t), snd (pipeline h g t))" for h g t by simp
  note m = files_written[OF p, of hash_a_first "[]" "example_missing 108"]
  have b: "dom (fst (pipeline hash_a_first [] (example_missing 108)))
             = {''./data/solution.csv'', ''./data/test.csv''}
         \<and> snd (pipeline hash_a_first [] (example_missing 108)) = Some OverflowError"
    using m[THEN conjunct2, THEN conjunct2, THEN conjunct2, THEN conjunct2, THEN conjunct2,
            THEN conjunct1, THEN spec, THEN spec, THEN mp, THEN mp, THEN mp,
            OF clean_example_missing example_missing_held_out example_missing_overflow] .
  note c = files_written[OF p, of hash_a_first "[]" example_no_columns]
  have c1: "dom (fst (pipeline hash_a_first [] example_no_columns)) = {}
         \<and> snd (pipeline hash_a_first [] example_no_columns) = Some KeyError"
    using c[THEN conjunct2, THEN conjunct2, THEN conjunct2, THEN conjunct1, THEN spec, THEN mp,
            OF example_no_columns_run(1)] .
  note d = files_written[OF p, of hash_a_first "[]" example_no_target]
  have d1: "dom (fst (pipeline hash_a_first [] example_no_target)) = {}
         \<and> snd (pipeline hash_a_first [] example_no_target) = Some KeyError"
    using d[THEN conjunct2, THEN conjunct2, THEN conjunct2, THEN conjunct2, THEN conjunct1,
            THEN spec, THEN spec, THEN mp, THEN mp,
            OF example_no_target_clean example_no_target_held_out] .
  note o = files_written[OF p, of hash_a_first "replicate 199 0 @ [0, 9, 9, 9, 0]"
      "example_table (FloatV 1) 108"]
  have sp: "splitter Map.empty (replicate 199 0 @ [0, 9, 9, 9, 0]) (example_frame (FloatV 1) 108)
       = (example_files (FloatV 1) 108 [0, 9, 9, 9, 0],
          Inr (example_train (FloatV 1) 108, example_test (FloatV 1) 108, [0, 9, 9, 9, 0]))"
    using example_splitter[of 108 "[0, 9, 9, 9, 0]" "FloatV 1"] by simp
  have o1: "dom (fst (pipeline hash_a_first (replicate 199 0 @ [0, 9, 9, 9, 0]) (example_table (FloatV 1) 108)))
       = {''./data/solution.csv'', ''./data/test.csv'', ''./data/sample_submission.csv''}
     \<and> snd (pipeline hash_a_first (replicate 199 0 @ [0, 9, 9, 9, 0]) (example_table (FloatV 1) 108))
       = Some ValueError"
    using o[THEN conjunct2, THEN conjunct2, THEN conjunct2, THEN conjunct2, THEN conjunct2,
            THEN conjunct2, THEN spec, THEN spec, THEN spec, THEN spec, THEN spec, THEN spec,
            THEN mp, THEN mp, THEN mp,
            OF clean_example sp example_corruptor_oversized] .
  show ?thesis
    using example_run_a[of "FloatV 1"] a b c1 d1 clean_example_missing[of 108]
      example_missing_held_out[of "[]"] example_missing_overflow[of 108]
      example_no_columns_run(1) example_no_target_clean example_no_target_held_out[of "[]"]
      sp example_corruptor_oversized[of "FloatV 1"] o1
    by (intro conjI) simp_all
qed

text \<open>
  Claim C8 as stated fails: the example run whose draws for the corruption cell are 0
  for the row and three successful trials for the count ends with ValueError after
  three of the four files are written.
\<close>

theorem three_files_on_corruptor_failure:
  "pipeline hash_a_first (replicate 199 0 @ [0, 9, 9, 9, 0]) (example_table (FloatV 1) 108)
     = (example_files (FloatV 1) 108 [0, 9, 9, 9, 0], Some ValueError)
   \<and> dom (example_files (FloatV 1) 108 [0, 9, 9, 9, 0])
       = {''./data/solution.csv'', ''./data/test.csv'', ''./data/sample_submission.csv''}"
  by (simp add: example_run_oversized example_files_dom)

text \<open>
  Claim C9 fails on the code. Two runs on the same table with the same draws, in
  interpreter processes whose string hashes order the set of float64 column names
  differently, write different \<open>train.csv\<close> files: one blanks the feature \<open>a\<close> of
  the first training row, the other its target.
\<close>

theorem hash_order_changes_train:
  "fst (pipeline hash_a_first (replicate 199 0) (example_table (FloatV 1) 108)) ''./data/train.csv''
     \<noteq> fst (pipeline hash_target_first (replicate 199 0) (example_table (FloatV 1) 108)) ''./data/train.csv''
   \<and> map_option (\<lambda>f. hd (snd f))
        (fst (pipeline hash_a_first (replicate 199 0) (example_table (FloatV 1) 108)) ''./data/train.csv'')
       = Some [NaN, IntV 0, FloatV (- 100), IntV 100]
   \<and> map_option (\<lambda>f. hd (snd f))
        (fst (pipeline hash_target_first (replicate 199 0) (example_table (FloatV 1) 108)) ''./data/train.csv'')
       = Some [FloatV 1, IntV 0, NaN, IntV 100]"
  by (simp add: example_train_csv_a example_train_csv_t)

text \<open>
  Claim C10. Whenever \<open>train.csv\<close> is written, the table has at least 100 rows, the
  split cell has returned with the 100 distinct held-out labels \<open>held\<close>, and the
  training frame it returned has the labels \<open>ids\<close>: the positions 0, 1, 2, ... of the
  cleaned table that are not held out, in increasing order, \<open>N - 100\<close> of them.
  \<open>train.csv\<close> has one row for each of them, in that order: its \<open>id\<close> column is
  \<open>ids\<close>, and in every other column the cell of its row \<open>p\<close> is the cell of the
  cleaned table at position \<open>ids ! p\<close> or the missing-value marker. So two training
  rows appear in the order they have in the cleaned table.
\<close>

theorem train_order:
  assumes cl: "clean (read_csv t) = Inr df0"
    and w: "fst (pipeline h g t) ''./data/train.csv'' = Some f"
  shows "let held = held_out_of g (with_id df0);
             ids = filter (\<lambda>i. i \<notin> set held) [0..<length (t_rows t)]
         in 100 \<le> length (t_rows t)
          \<and> distinct held \<and> length held = 100 \<and> set held \<subseteq> {0..<length (t_rows t)}
          \<and> (\<exists>fs tr te g1. splitter Map.empty g df0 = (fs, Inr (tr, te, g1))
                \<and> index te = held \<and> index tr = ids)
          \<and> length ids = length (t_rows t) - 100
          \<and> sorted_wrt (<) ids
          \<and> length (snd f) = length ids
          \<and> csv_column ''id'' f = map (\<lambda>i. IntV (int i)) ids
          \<and> (\<forall>c \<in> set (fst f). c \<noteq> ''id'' \<longrightarrow>
                list_all2 (\<lambda>v i. v = NaN \<or> v = (t_rows t ! i) c) (csv_column c f) ids)"
proof -
  define df where "df = with_id df0"
  define labels where "labels = held_out_of g df"
  define tr where "tr = train_frame df labels"
  define ids where "ids = filter (\<lambda>l. l \<notin> set labels) [0..<length (t_rows t)]"
  note e = pipeline_train_written_explicit[OF cl w]
  obtain df_nan g2 where co: "corruptor h (drop 199 g) tr = Inr (df_nan, g2)" and f: "f = to_csv df_nan"
    using e(3) unfolding tr_def labels_def df_def by blast
  let ?F = "\<lambda>j. (j, (t_rows t ! j)(''id'' := IntV (int j)))"
  have idx: "index df = [0..<length (t_rows t)]" "len df = length (t_rows t)" "distinct (index df)"
    using clean_index[OF cl] by (simp_all add: df_def with_id_simps)
  have cols0: "''highUptake_mol'' \<in> set (columns df)" "dtypes df ''highUptake_mol'' \<noteq> Object"
    using e(4,5) by (auto simp: df_def with_id_simps)
  have ho: "distinct labels" "length labels = 100" "set labels \<subseteq> set (index df)"
    unfolding labels_def
    using held_out_indices_ok[of df g] idx e(1) cols0 by simp_all
  have rows: "rows df = map ?F [0..<length (t_rows t)]"
    unfolding df_def by (rule rows_with_id_clean[OF cl])
  have rows_tr: "rows tr = map ?F ids"
    by (simp add: tr_def train_frame_def rows ids_def filter_map comp_def)
  have len: "len tr = length ids" "len df_nan = length ids"
    using corruptor_frame(4)[OF co] by (simp_all add: len_def rows_tr)
  have cols: "columns df_nan = columns df" "fst f = columns df" "''id'' \<in> set (columns df)"
    using corruptor_frame(1)[OF co] by (simp_all add: tr_def train_frame_simps f to_csv_def df_def with_id_simps)
  have idty: "dtypes tr ''id'' \<noteq> Float64" by (simp add: tr_def train_frame_simps df_def with_id_simps)
  have "csv_column ''id'' f = column ''id'' df_nan"
    unfolding f using cols by (simp add: csv_column_to_csv)
  also have "\<dots> = column ''id'' tr" using corruptor_column_kept[OF co idty] .
  also have "\<dots> = map (\<lambda>i. IntV (int i)) ids"
    by (simp add: column_def rows_tr comp_def)
  finally have a: "csv_column ''id'' f = map (\<lambda>i. IntV (int i)) ids" .
  have b: "list_all2 (\<lambda>v i. v = NaN \<or> v = (t_rows t ! i) c) (csv_column c f) ids"
    if c: "c \<in> set (fst f)" "c \<noteq> ''id''" for c
  proof -
    have cc: "csv_column c f = map (\<lambda>p. cell_at df_nan p c) [0..<length ids]"
      unfolding f using c(1) cols by (simp add: csv_column_to_csv column_nth len)
    have cell: "cell_at df_nan p c = NaN \<or> cell_at df_nan p c = (t_rows t ! (ids ! p)) c"
      if "p < length ids" for p
    proof -
      have "cell_at tr p c = (t_rows t ! (ids ! p)) c"
        using that c(2) by (simp add: cell_at_def rows_tr)
      then show ?thesis using corruptor_frame(5)[OF co] that len(1) by metis
    qed
    show ?thesis unfolding cc by (simp add: list_all2_conv_all_nth cell)
  qed
  have l1: "length (snd f) = length ids"
    using len(2) by (simp add: f to_csv_def len_def)
  have l2: "length ids = length (t_rows t) - 100"
  proof -
    have "length ids = len tr" using len(1) by simp
    also have "\<dots> = length (rows df) - length labels"
      unfolding tr_def train_frame_def
      using length_filter_rows[of "rows df" labels] idx(3) ho(1,3) by (simp add: len_def index_def)
    finally show ?thesis using ho(2) idx(2) by (simp add: len_def)
  qed
  have sp: "\<exists>fs tr' te g1. splitter Map.empty g df0 = (fs, Inr (tr', te, g1))
                \<and> index te = labels \<and> index tr' = ids"
  proof -
    obtain fs where s: "splitter Map.empty g df0 = (fs, Inr (tr, test_frame df labels, drop 199 g))"
      using e(2) unfolding tr_def labels_def df_def by blast
    have "index (test_frame df labels) = labels" by (simp add: index_def test_frame_def comp_def)
    moreover have "index tr = ids" by (simp add: index_def rows_tr comp_def)
    ultimately show ?thesis using s by blast
  qed
  have srt: "sorted_wrt (<) ids" unfolding ids_def by (rule sorted_wrt_filter) simp
  have sub: "set labels \<subseteq> {0..<length (t_rows t)}" using ho(3) idx(1) by simp
  have "100 \<le> length (t_rows t)
          \<and> distinct labels \<and> length labels = 100 \<and> set labels \<subseteq> {0..<length (t_rows t)}
          \<and> (\<exists>fs tr te g1. splitter Map.empty g df0 = (fs, Inr (tr, te, g1))
                \<and> index te = labels \<and> index tr = ids)
          \<and> length ids = length (t_rows t) - 100
          \<and> sorted_wrt (<) ids
          \<and> length (snd f) = length ids
          \<and> csv_column ''id'' f = map (\<lambda>i. IntV (int i)) ids
          \<and> (\<forall>c \<in> set (fst f). c \<noteq> ''id'' \<longrightarrow>
                list_all2 (\<lambda>v i. v = NaN \<or> v = (t_rows t ! i) c) (csv_column c f) ids)"
    using e(1) ho(1,2) sub sp l2 srt l1 a b by (intro conjI ballI impI)
  then show ?thesis unfolding Let_def ids_def labels_def df_def .
qed

text \<open>
  The example run: \<open>train.csv\<close> is written, the positions not held out are 100 to
  107, and the file has these eight rows in this order.
\<close>

theorem train_order_witness:
  "clean (read_csv (example_table (FloatV 1) 108)) = Inr (example_frame (FloatV 1) 108)
   \<and> fst (pipeline hash_a_first (replicate 199 0) (example_table (FloatV 1) 108)) ''./data/train.csv''
       = Some ([''a'', ''n'', ''highUptake_mol'', ''id''],
        [[NaN, IntV 0, FloatV (- 100), IntV 100],
         [FloatV 1, IntV 0, FloatV (- 101), IntV 101],
         [FloatV 1, IntV 0, FloatV (- 102), IntV 102],
         [FloatV 1, IntV 0, FloatV (- 103), IntV 103],
         [FloatV 1, IntV 0, FloatV (- 104), IntV 104],
         [FloatV 1, IntV 0, FloatV (- 105), IntV 105],
         [FloatV 1, IntV 0, FloatV (- 106), IntV 106],
         [FloatV 1, IntV 0, FloatV (- 107), IntV 107]])
   \<and> length (t_rows (example_table (FloatV 1) 108)) = 108
   \<and> filter (\<lambda>i. i \<notin> set (held_out_of (replicate 199 0) (with_id (example_frame (FloatV 1) 108))))
        [0..<108] = [100, 101, 102, 103, 104, 105, 106, 107]
   \<and> csv_column ''id''
        (the (fst (pipeline hash_a_first (replicate 199 0) (example_table (FloatV 1) 108)) ''./data/train.csv''))
       = map (\<lambda>i. IntV (int i)) [100, 101, 102, 103, 104, 105, 106, 107]
   \<and> length (snd (the (fst (pipeline hash_a_first (replicate 199 0) (example_table (FloatV 1) 108))
                          ''./data/train.csv''))) = 108 - 100"
proof -
  let ?f = "the (fst (pipeline hash_a_first (replicate 199 0) (example_table (FloatV 1) 108)) ''./data/train.csv'')"
  have w: "fst (pipeline hash_a_first (replicate 199 0) (example_table (FloatV 1) 108)) ''./data/train.csv''
         = Some ?f"
    by (simp add: example_train_csv_a)
  have n: "length (t_rows (example_table (FloatV 1) 108)) = 108" by (simp add: example_table_def)
  have ho: "held_out_of (replicate 199 0) (with_id (example_frame (FloatV 1) 108)) = example_combined"
    using example_held_out_of[of 108 "replicate 100 0" "FloatV 1"]
    by (simp add: replicate_add[symmetric])
  have split: "[0..<108] = [0..<100] @ [100..<108]"
    using upt_add_eq_append[of 0 100 8] by simp
  have ids: "filter (\<lambda>i. i \<notin> set example_combined) [0..<108] = [100, 101, 102, 103, 104, 105, 106, 107]"
    unfolding split filter_append set_example_combined by (simp add: upt_rec_numeral)
  note t = train_order[OF clean_example w, unfolded Let_def n ho ids]
  have a: "csv_column ''id'' ?f = map (\<lambda>i. IntV (int i)) [100, 101, 102, 103, 104, 105, 106, 107]"
    using t by blast
  have b: "length (snd ?f) = 108 - 100" using t by simp
  show ?thesis
    unfolding ho ids using a b n clean_example[of "FloatV 1" 108] example_train_csv_a[of "FloatV 1"]
    by simp
qed

end
